theory Spec2Isabelle
  imports Main "HOL-Library.Word" "HOL-Library.Monad_Syntax" "HOL-Library.AList"
begin

unbundle bit_operations_syntax

section \<open>Gameplay tags\<close>

text \<open>
  A gameplay tag is a dot-segmented hierarchical label such as World.Impact.Earth.
  It is kept as the list of its segments; the empty list is the empty (invalid) tag.
\<close>

type_synonym FGameplayTag = "string list"

definition EmptyTag :: FGameplayTag where
  "EmptyTag = []"

text \<open>
  Modelled from the spec: the tag taxonomy provider (FGameplayTag of the host engine) is not
  part of the repository. A tag is valid when it names at least one segment, and its direct
  parent is the tag with the trailing segment removed; the parent of a root tag is the empty tag.
\<close>

definition IsValid :: "FGameplayTag \<Rightarrow> bool" where
  "IsValid t = (t \<noteq> [])"

definition RequestDirectParent :: "FGameplayTag \<Rightarrow> FGameplayTag" where
  "RequestDirectParent t = butlast t"

section \<open>Tag indices and axis maps\<close>

type_synonym TagIndex = "32 word"

definition InvalidIndex :: TagIndex where
  "InvalidIndex = 0xFFFFFFFF"

text \<open>
  An axis map (TMap from tags to indices) is an association list in iteration order.
  Contains, operator[], Add and Remove are the lookups and updates of that list.
\<close>

type_synonym TagMap = "(FGameplayTag \<times> TagIndex) list"

definition Contains :: "('k \<times> 'v) list \<Rightarrow> 'k \<Rightarrow> bool" where
  "Contains m k = (map_of m k \<noteq> None)"

text \<open>UAffinityTable::GetIndex.\<close>

function GetIndex :: "TagMap \<Rightarrow> FGameplayTag \<Rightarrow> bool \<Rightarrow> TagIndex" where
  "GetIndex InMap InTag ExactMatch =
     (if IsValid InTag then
        (case map_of InMap InTag of
           Some i \<Rightarrow> i
         | None \<Rightarrow>
             if \<not> ExactMatch then GetIndex InMap (RequestDirectParent InTag) ExactMatch
             else InvalidIndex)
      else InvalidIndex)"
  by pat_completeness auto
termination
  by (relation "measure (\<lambda>(m, t, e). length t)") (auto simp: IsValid_def RequestDirectParent_def)

declare GetIndex.simps [simp del]

text \<open>
  The ancestor chain of a tag, the tag itself first and the root last: the tags obtained by
  removing trailing segments one at a time.
\<close>

fun AncestorChain :: "FGameplayTag \<Rightarrow> FGameplayTag list" where
  "AncestorChain t = (if t = [] then [] else t # AncestorChain (butlast t))"

declare AncestorChain.simps [simp del]

section \<open>Structure descriptors\<close>

text \<open>
  Modelled from the spec: the schema descriptor provider (UScriptStruct of the host engine) is
  not part of the repository. Of a descriptor the model keeps its name, the byte size of one
  record, and the default record, the value that InitializeStruct constructs and that
  ClearScriptStruct reinitialises a record to. All records are values of one type.
\<close>

record 'a UScriptStruct =
  StructFName :: string
  StructureSize :: nat
  DefaultRecord :: 'a

section \<open>FStructDatablock\<close>

text \<open>
  None as a result stands for a fatal stop of the process: a failed check, or an access
  outside an array or outside the allocated buffer.
\<close>

type_synonym DatablockHandle = "32 word"

definition MaxDatablockCapacity :: "32 word" where
  "MaxDatablockCapacity = 512"

definition InvalidHandle :: DatablockHandle where
  "InvalidHandle = 0xFFFFFFFF"

text \<open>
  The buffer Datablock holds Capacity records, None is the null pointer. A pointer into the
  buffer is the number of the record it points to.
\<close>

record 'a FStructDatablock =
  Struct :: "'a UScriptStruct"
  Datablock :: "'a list option"
  Capacity :: "32 word"
  StructSize :: nat
  NextHandle :: DatablockHandle
  FreeHandles :: "DatablockHandle list"

text \<open>
  TArray::HeapPop of the host engine with the default order: it hands out the first element,
  moves the last element to the front and sifts it down.
\<close>

function HeapSiftDown :: "DatablockHandle list \<Rightarrow> nat \<Rightarrow> DatablockHandle list" where
  "HeapSiftDown Heap Index =
     (if Index * 2 + 1 < length Heap then
        (let LeftChildIndex = Index * 2 + 1;
             RightChildIndex = LeftChildIndex + 1;
             MinChildIndex =
               (if RightChildIndex < length Heap
                then (if Heap ! LeftChildIndex < Heap ! RightChildIndex
                      then LeftChildIndex else RightChildIndex)
                else LeftChildIndex)
         in if \<not> (Heap ! MinChildIndex < Heap ! Index) then Heap
            else HeapSiftDown (Heap[Index := Heap ! MinChildIndex, MinChildIndex := Heap ! Index])
                   MinChildIndex)
      else Heap)"
  by pat_completeness auto
termination
  by (relation "measure (\<lambda>(h, i). length h - i)") (auto simp: Let_def split: if_splits)

declare HeapSiftDown.simps [simp del]

definition HeapPop :: "DatablockHandle list \<Rightarrow> (DatablockHandle \<times> DatablockHandle list) option" where
  "HeapPop xs =
     (case xs of
        [] \<Rightarrow> None
      | x # rest \<Rightarrow>
          Some (x, if rest = [] then [] else HeapSiftDown (last rest # butlast rest) 0))"

definition Alloc :: "'a FStructDatablock \<Rightarrow> 'a FStructDatablock option" where
  "Alloc b =
     (if Datablock b \<noteq> None then None
      else if FreeHandles b \<noteq> [] then None
      else if StructureSize (Struct b) = 0 then None
      else Some (b\<lparr>StructSize := StructureSize (Struct b),
                      Datablock := Some (replicate (unat (Capacity b)) (DefaultRecord (Struct b))),
                      NextHandle := 0\<rparr>))"

definition FStructDatablock_new ::
  "'a UScriptStruct \<Rightarrow> 32 word \<Rightarrow> bool \<Rightarrow> 'a FStructDatablock option" where
  "FStructDatablock_new InStruct DesiredCapacity AllocNow =
     (if DesiredCapacity = 0 then None
      else
        let Cap = (if DesiredCapacity < MaxDatablockCapacity then DesiredCapacity
                   else MaxDatablockCapacity)
        in if Cap \<noteq> DesiredCapacity then None
           else
             let b = \<lparr>Struct = InStruct, Datablock = None, Capacity = Cap, StructSize = 0,
                      NextHandle = InvalidHandle, FreeHandles = []\<rparr>
             in if AllocNow then Alloc b else Some b)"

definition GetMemoryBlock :: "'a FStructDatablock \<Rightarrow> DatablockHandle \<Rightarrow> nat option option" where
  "GetMemoryBlock b Handle =
     (if Handle = InvalidHandle then None
      else Some (case Datablock b of None \<Rightarrow> None | Some buf \<Rightarrow> Some (unat Handle)))"

text \<open>ClearScriptStruct at a pointer: the record there is reinitialised to the default.\<close>

definition ClearScriptStruct :: "'a FStructDatablock \<Rightarrow> nat option \<Rightarrow> 'a FStructDatablock option" where
  "ClearScriptStruct b p =
     (case (Datablock b, p) of
        (Some buf, Some k) \<Rightarrow>
          if k < length buf then Some (b\<lparr>Datablock := Some (buf[k := DefaultRecord (Struct b)])\<rparr>)
          else None
      | _ \<Rightarrow> None)"

definition Datablock_NewHandle ::
  "'a FStructDatablock \<Rightarrow> (DatablockHandle \<times> 'a FStructDatablock) option" where
  "Datablock_NewHandle b =
     do {
       b1 \<leftarrow> (if Datablock b = None then Alloc b else Some b);
       if NextHandle b1 < Capacity b1 then
         Some (NextHandle b1, b1\<lparr>NextHandle := NextHandle b1 + 1\<rparr>)
       else if FreeHandles b1 \<noteq> [] then
         do {
           (RecycledHandle, rest) \<leftarrow> HeapPop (FreeHandles b1);
           p \<leftarrow> GetMemoryBlock b1 RecycledHandle;
           b2 \<leftarrow> ClearScriptStruct (b1\<lparr>FreeHandles := rest\<rparr>) p;
           Some (RecycledHandle, b2)
         }
       else Some (InvalidHandle, b1)
     }"

definition RecycleHandle :: "'a FStructDatablock \<Rightarrow> DatablockHandle \<Rightarrow> 'a FStructDatablock option" where
  "RecycleHandle b Handle =
     (if Handle = InvalidHandle then None
      else Some (b\<lparr>FreeHandles := FreeHandles b @ [Handle]\<rparr>))"

text \<open>
  The record a pointer of the block points to, as the owner of a handle reads and writes it.
\<close>

definition ReadRecord :: "'a FStructDatablock \<Rightarrow> nat option \<Rightarrow> 'a option" where
  "ReadRecord b p =
     (case (Datablock b, p) of
        (Some buf, Some k) \<Rightarrow> if k < length buf then Some (buf ! k) else None
      | _ \<Rightarrow> None)"

definition WriteRecord :: "'a FStructDatablock \<Rightarrow> nat option \<Rightarrow> 'a \<Rightarrow> 'a FStructDatablock option" where
  "WriteRecord b p v =
     (case (Datablock b, p) of
        (Some buf, Some k) \<Rightarrow>
          if k < length buf then Some (b\<lparr>Datablock := Some (buf[k := v])\<rparr>) else None
      | _ \<Rightarrow> None)"

section \<open>FAffinityTablePage\<close>

type_synonym DataHandle = "64 word"

definition InvalidDataHandle :: DataHandle where
  "InvalidDataHandle = 0xFFFFFFFFFFFFFFFF"

type_synonym Row = "DataHandle list"

text \<open>
  A row of the page is a shared pointer to an array of handles; None is the reset (null)
  pointer of a deleted row. A pointer into the page names the datablock and the record in it.
\<close>

record 'a FAffinityTablePage =
  PageStruct :: "'a UScriptStruct"
  PageRows :: "Row option list"
  Datablocks :: "'a FStructDatablock list"
  DeletedColumns :: "32 word set"
  PageColumns :: "32 word"
  FixedMode :: bool
  CurrentDatablock :: "32 word"

type_synonym DatablockPtr = "(nat \<times> nat) option"

fun AllocateBlocks_full ::
  "'a UScriptStruct \<Rightarrow> nat \<Rightarrow> 'a FStructDatablock list \<Rightarrow> 'a FStructDatablock list option" where
  "AllocateBlocks_full S 0 ds = Some ds"
| "AllocateBlocks_full S (Suc FullBlocks) ds =
     do {
       b \<leftarrow> FStructDatablock_new S MaxDatablockCapacity True;
       AllocateBlocks_full S FullBlocks (ds @ [b])
     }"

definition AllocateBlocks :: "'a FAffinityTablePage \<Rightarrow> 32 word \<Rightarrow> 'a FAffinityTablePage option" where
  "AllocateBlocks p Cap =
     (if Cap = 0 then None
      else
        let FullBlocks = Cap div MaxDatablockCapacity;
            SmallBlock = Cap mod MaxDatablockCapacity;
            p1 = p\<lparr>CurrentDatablock := of_nat (length (Datablocks p))\<rparr>
        in do {
             ds \<leftarrow> AllocateBlocks_full (PageStruct p1) (unat FullBlocks) (Datablocks p1);
             ds1 \<leftarrow> (if SmallBlock \<noteq> 0 then
                       do { b \<leftarrow> FStructDatablock_new (PageStruct p1) SmallBlock True;
                            Some (ds @ [b]) }
                     else Some ds);
             Some (p1\<lparr>Datablocks := ds1\<rparr>)
           })"

definition MakeHandle ::
  "'a FAffinityTablePage \<Rightarrow> 32 word \<Rightarrow> DatablockHandle \<Rightarrow> DataHandle option" where
  "MakeHandle p DatablockIndex DatablockHandle =
     (if \<not> unat DatablockIndex < length (Datablocks p) then None
      else if DatablockHandle = InvalidHandle then None
      else Some (push_bit 32 (ucast DatablockIndex) OR ucast DatablockHandle))"

text \<open>The result Some None is the return value false.\<close>

definition GetHandleData ::
  "'a FAffinityTablePage \<Rightarrow> DataHandle \<Rightarrow> (32 word \<times> DatablockHandle) option option" where
  "GetHandleData p Handle =
     (if Handle \<noteq> InvalidDataHandle then
        let OutDatablockIndex = (ucast (drop_bit 32 (Handle AND 0xFFFFFFFF00000000)) :: 32 word);
            OutDatablockHandle = (ucast (Handle AND 0x00000000FFFFFFFF) :: 32 word)
        in if \<not> unat OutDatablockIndex < length (Datablocks p) then None
           else if OutDatablockHandle = InvalidHandle then None
           else Some (Some (OutDatablockIndex, OutDatablockHandle))
      else Some None)"

function FindAvailableHandle_scan ::
  "'a FAffinityTablePage \<Rightarrow> nat \<Rightarrow> (DataHandle \<times> 'a FAffinityTablePage) option" where
  "FindAvailableHandle_scan p i =
     (if i < length (Datablocks p) then
        (case Datablock_NewHandle (Datablocks p ! i) of
           None \<Rightarrow> None
         | Some (DatablockHandle, b) \<Rightarrow>
             if DatablockHandle \<noteq> InvalidHandle then
               (let p2 = p\<lparr>Datablocks := (Datablocks p)[i := b], CurrentDatablock := of_nat i\<rparr>
                in case MakeHandle p2 (CurrentDatablock p2) DatablockHandle of
                     None \<Rightarrow> None
                   | Some Handle \<Rightarrow> Some (Handle, p2))
             else FindAvailableHandle_scan (p\<lparr>Datablocks := (Datablocks p)[i := b]\<rparr>) (i + 1))
      else Some (InvalidDataHandle, p))"
  by pat_completeness auto
termination
  by (relation "measure (\<lambda>(p, i). length (Datablocks p) - i)") auto

declare FindAvailableHandle_scan.simps [simp del]

definition FindAvailableHandle ::
  "'a FAffinityTablePage \<Rightarrow> (DataHandle \<times> 'a FAffinityTablePage) option" where
  "FindAvailableHandle p =
     (if Datablocks p \<noteq> [] then
        if unat (CurrentDatablock p) < length (Datablocks p) then
          do {
            (DatablockHandle, b) \<leftarrow> Datablock_NewHandle (Datablocks p ! unat (CurrentDatablock p));
            let p1 = p\<lparr>Datablocks := (Datablocks p)[unat (CurrentDatablock p) := b]\<rparr> in
            if DatablockHandle = InvalidHandle then FindAvailableHandle_scan p1 0
            else do { Handle \<leftarrow> MakeHandle p1 (CurrentDatablock p1) DatablockHandle;
                      Some (Handle, p1) }
          }
        else None
      else Some (InvalidDataHandle, p))"

definition Page_NewHandle ::
  "'a FAffinityTablePage \<Rightarrow> (DataHandle \<times> 'a FAffinityTablePage) option" where
  "Page_NewHandle p =
     do {
       (Handle, p1) \<leftarrow> FindAvailableHandle p;
       (Handle2, p2) \<leftarrow>
         (if Handle = InvalidDataHandle \<and> \<not> FixedMode p1 then
            do {
              p3 \<leftarrow> AllocateBlocks p1 MaxDatablockCapacity;
              (Handle3, p4) \<leftarrow> FindAvailableHandle p3;
              if Handle3 \<noteq> InvalidDataHandle then Some (Handle3, p4) else None
            }
          else Some (Handle, p1));
       if Handle2 \<noteq> ucast InvalidHandle then Some (Handle2, p2) else None
     }"

fun AppendHandles_count ::
  "'a FAffinityTablePage \<Rightarrow> Row \<Rightarrow> nat \<Rightarrow> (Row \<times> 'a FAffinityTablePage) option" where
  "AppendHandles_count p InRow 0 = Some (InRow, p)"
| "AppendHandles_count p InRow (Suc Count) =
     do {
       (h, p1) \<leftarrow> Page_NewHandle p;
       AppendHandles_count p1 (InRow @ [h]) Count
     }"

fun AppendHandles_each ::
  "'a FAffinityTablePage \<Rightarrow> Row \<Rightarrow> 32 word list \<Rightarrow> (Row \<times> 'a FAffinityTablePage) option" where
  "AppendHandles_each p InRow [] = Some (InRow, p)"
| "AppendHandles_each p InRow (i # rest) =
     (if i \<in> DeletedColumns p then AppendHandles_each p (InRow @ [InvalidDataHandle]) rest
      else do {
             (h, p1) \<leftarrow> Page_NewHandle p;
             AppendHandles_each p1 (InRow @ [h]) rest
           })"

definition AppendHandles ::
  "'a FAffinityTablePage \<Rightarrow> Row \<Rightarrow> 32 word \<Rightarrow> (Row \<times> 'a FAffinityTablePage) option" where
  "AppendHandles p InRow Count0 =
     (let Count = (if Count0 = 0 \<and> DeletedColumns p = {} then PageColumns p else Count0)
      in if Count \<noteq> 0 then AppendHandles_count p InRow (unat Count)
         else AppendHandles_each p InRow (map of_nat [0..<unat (PageColumns p)]))"

definition Page_AddRow :: "'a FAffinityTablePage \<Rightarrow> 'a FAffinityTablePage option" where
  "Page_AddRow p =
     do {
       (NewRow, p1) \<leftarrow> AppendHandles p [] 0;
       Some (p1\<lparr>PageRows := PageRows p1 @ [Some NewRow]\<rparr>)
     }"

fun Page_AddColumn_rows ::
  "'a FAffinityTablePage \<Rightarrow> Row option list \<Rightarrow> (Row option list \<times> 'a FAffinityTablePage) option" where
  "Page_AddColumn_rows p [] = Some ([], p)"
| "Page_AddColumn_rows p (None # rest) =
     do {
       (rest1, p1) \<leftarrow> Page_AddColumn_rows p rest;
       Some (None # rest1, p1)
     }"
| "Page_AddColumn_rows p (Some ThisRow # rest) =
     do {
       (ThisRow1, p1) \<leftarrow> AppendHandles p ThisRow 1;
       (rest1, p2) \<leftarrow> Page_AddColumn_rows p1 rest;
       Some (Some ThisRow1 # rest1, p2)
     }"

definition Page_AddColumn :: "'a FAffinityTablePage \<Rightarrow> 'a FAffinityTablePage option" where
  "Page_AddColumn p =
     do {
       (rows, p1) \<leftarrow> Page_AddColumn_rows p (PageRows p);
       Some (p1\<lparr>PageRows := rows, PageColumns := PageColumns p1 + 1\<rparr>)
     }"

text \<open>GetRow: the outer None is the failed range check, Some None the null row.\<close>

definition GetRow :: "'a FAffinityTablePage \<Rightarrow> 32 word \<Rightarrow> Row option option" where
  "GetRow p RowIndex =
     (if unat RowIndex < length (PageRows p) then Some (PageRows p ! unat RowIndex) else None)"

definition Page_RecycleHandle ::
  "'a FAffinityTablePage \<Rightarrow> 32 word \<Rightarrow> DatablockHandle \<Rightarrow> 'a FAffinityTablePage option" where
  "Page_RecycleHandle p DatablockIndex DatablockHandle =
     (if unat DatablockIndex < length (Datablocks p) then
        do {
          b \<leftarrow> RecycleHandle (Datablocks p ! unat DatablockIndex) DatablockHandle;
          Some (p\<lparr>Datablocks := (Datablocks p)[unat DatablockIndex := b]\<rparr>)
        }
      else None)"

fun Page_DeleteRow_handles :: "'a FAffinityTablePage \<Rightarrow> Row \<Rightarrow> 'a FAffinityTablePage option" where
  "Page_DeleteRow_handles p [] = Some p"
| "Page_DeleteRow_handles p (Column # rest) =
     do {
       d \<leftarrow> GetHandleData p Column;
       p1 \<leftarrow> (case d of
               Some (DatablockIndex, DatablockHandle) \<Rightarrow>
                 Page_RecycleHandle p DatablockIndex DatablockHandle
             | None \<Rightarrow> Some p);
       Page_DeleteRow_handles p1 rest
     }"

definition Page_DeleteRow :: "'a FAffinityTablePage \<Rightarrow> 32 word \<Rightarrow> 'a FAffinityTablePage option" where
  "Page_DeleteRow p RowIndex =
     do {
       r \<leftarrow> GetRow p RowIndex;
       RowToDelete \<leftarrow> r;
       p1 \<leftarrow> Page_DeleteRow_handles p RowToDelete;
       Some (p1\<lparr>PageRows := (PageRows p1)[unat RowIndex := None]\<rparr>)
     }"

fun Page_DeleteColumn_rows ::
  "'a FAffinityTablePage \<Rightarrow> 32 word \<Rightarrow> Row option list \<Rightarrow>
     (Row option list \<times> 'a FAffinityTablePage) option" where
  "Page_DeleteColumn_rows p ColumnIndex [] = Some ([], p)"
| "Page_DeleteColumn_rows p ColumnIndex (None # rest) =
     do {
       (rest1, p1) \<leftarrow> Page_DeleteColumn_rows p ColumnIndex rest;
       Some (None # rest1, p1)
     }"
| "Page_DeleteColumn_rows p ColumnIndex (Some ThisRow # rest) =
     (if \<not> unat ColumnIndex < length ThisRow then None
      else do {
             d \<leftarrow> GetHandleData p (ThisRow ! unat ColumnIndex);
             (ThisRow1, p1) \<leftarrow>
               (case d of
                  Some (DatablockIndex, DatablockHandle) \<Rightarrow>
                    do {
                      p0 \<leftarrow> Page_RecycleHandle p DatablockIndex DatablockHandle;
                      Some (ThisRow[unat ColumnIndex := InvalidDataHandle], p0)
                    }
                | None \<Rightarrow> Some (ThisRow, p));
             (rest1, p2) \<leftarrow> Page_DeleteColumn_rows p1 ColumnIndex rest;
             Some (Some ThisRow1 # rest1, p2)
           })"

definition Page_DeleteColumn :: "'a FAffinityTablePage \<Rightarrow> 32 word \<Rightarrow> 'a FAffinityTablePage option" where
  "Page_DeleteColumn p ColumnIndex =
     (if \<not> (ColumnIndex < PageColumns p \<and> ColumnIndex \<notin> DeletedColumns p) then None
      else do {
             (rows, p1) \<leftarrow> Page_DeleteColumn_rows p ColumnIndex (PageRows p);
             Some (p1\<lparr>PageRows := rows, DeletedColumns := insert ColumnIndex (DeletedColumns p1)\<rparr>)
           })"

definition GetDatablockPtr_handle :: "'a FAffinityTablePage \<Rightarrow> DataHandle \<Rightarrow> DatablockPtr option" where
  "GetDatablockPtr_handle p Handle =
     do {
       d \<leftarrow> GetHandleData p Handle;
       (case d of
          Some (DatablockIndex, DatablockHandle) \<Rightarrow>
            do {
              m \<leftarrow> GetMemoryBlock (Datablocks p ! unat DatablockIndex) DatablockHandle;
              Some (map_option (\<lambda>k. (unat DatablockIndex, k)) m)
            }
        | None \<Rightarrow> Some None)
     }"

definition GetDatablockPtr :: "'a FAffinityTablePage \<Rightarrow> 32 word \<Rightarrow> 32 word \<Rightarrow> DatablockPtr option" where
  "GetDatablockPtr p InRow InColumn =
     do {
       r \<leftarrow> GetRow p InRow;
       (case r of
          Some SelectedRow \<Rightarrow>
            if unat InColumn < length SelectedRow
            then GetDatablockPtr_handle p (SelectedRow ! unat InColumn)
            else None
        | None \<Rightarrow> Some None)
     }"

fun Page_AddRows :: "'a FAffinityTablePage \<Rightarrow> nat \<Rightarrow> 'a FAffinityTablePage option" where
  "Page_AddRows p 0 = Some p"
| "Page_AddRows p (Suc n) = do { p1 \<leftarrow> Page_AddRow p; Page_AddRows p1 n }"

definition FAffinityTablePage_new ::
  "'a UScriptStruct \<Rightarrow> 32 word \<Rightarrow> 32 word \<Rightarrow> bool \<Rightarrow> 'a FAffinityTablePage option" where
  "FAffinityTablePage_new InStruct InRows InColumns InFixedMode =
     (let p = \<lparr>PageStruct = InStruct, PageRows = [], Datablocks = [], DeletedColumns = {},
                PageColumns = InColumns, FixedMode = InFixedMode, CurrentDatablock = 0\<rparr>;
          BlockCount = InRows * InColumns
      in do {
           p1 \<leftarrow> (if BlockCount \<noteq> 0 then AllocateBlocks p BlockCount else Some p);
           Page_AddRows p1 (unat InRows)
         })"

section \<open>UAffinityTable\<close>

type_synonym Cell = "TagIndex \<times> TagIndex"

type_synonym CellTags = "FGameplayTag \<times> FGameplayTag"

text \<open>A display colour is kept as an opaque code; no operation of the table looks into it.\<close>

type_synonym FLinearColor = nat

type_synonym InheritanceMap = "(string \<times> CellTags) list"

text \<open>
  A pointer to a structure descriptor is None (null) or the descriptor; two pointers are the
  same when they name the same descriptor. A pointer to the data of a cell names the structure
  of the page it points into, the datablock and the record; None is the null pointer.
\<close>

type_synonym CellDataPtr = "(string \<times> nat \<times> nat) option"

record 'a UAffinityTable =
  Structures :: "'a UScriptStruct option list"
  RowTags :: "FGameplayTag list"
  ColumnTags :: "FGameplayTag list"
  Rows :: TagMap
  Columns :: TagMap
  RowColors :: "(FGameplayTag \<times> FLinearColor) list"
  ColumnColors :: "(FGameplayTag \<times> FLinearColor) list"
  Pages :: "'a FAffinityTablePage list"
  InheritanceMaps :: "(string \<times> InheritanceMap) list"
  NextRowIndex :: TagIndex
  NextColumnIndex :: TagIndex
  bFixedModeActive :: bool
  bHasLoadingErrors :: bool

definition GetRowIndex :: "'a UAffinityTable \<Rightarrow> FGameplayTag \<Rightarrow> bool \<Rightarrow> TagIndex" where
  "GetRowIndex T InTag ExactMatch = GetIndex (Rows T) InTag ExactMatch"

definition GetColumnIndex :: "'a UAffinityTable \<Rightarrow> FGameplayTag \<Rightarrow> bool \<Rightarrow> TagIndex" where
  "GetColumnIndex T InTag ExactMatch = GetIndex (Columns T) InTag ExactMatch"

definition GetPageForStruct ::
  "'a UAffinityTable \<Rightarrow> 'a UScriptStruct option \<Rightarrow> 'a FAffinityTablePage option" where
  "GetPageForStruct T InScriptStruct =
     (case InScriptStruct of
        Some S \<Rightarrow> find (\<lambda>Page. PageStruct Page = S) (Pages T)
      | None \<Rightarrow> None)"

definition GetCellData ::
  "'a UAffinityTable \<Rightarrow> Cell \<Rightarrow> 'a UScriptStruct option \<Rightarrow> CellDataPtr option" where
  "GetCellData T InCell InScriptStruct =
     (case GetPageForStruct T InScriptStruct of
        Some Page \<Rightarrow>
          do {
            Data \<leftarrow> GetDatablockPtr Page (fst InCell) (snd InCell);
            Some (map_option (\<lambda>(b, k). (StructFName (PageStruct Page), b, k)) Data)
          }
      | None \<Rightarrow> Some None)"

text \<open>
  The loop of Query over the requested structures. The error message of the else branch reads
  the name of the requested structure, which stops the process when the pointer is null.
\<close>

fun Query_structs ::
  "'a UAffinityTable \<Rightarrow> Cell \<Rightarrow> 'a UScriptStruct option list \<Rightarrow> CellDataPtr list \<Rightarrow>
     CellDataPtr list option" where
  "Query_structs T QueriedCell [] OutMemoryPtrs = Some OutMemoryPtrs"
| "Query_structs T QueriedCell (ThisStruct # rest) OutMemoryPtrs =
     do {
       Data \<leftarrow> GetCellData T QueriedCell ThisStruct;
       (if Data \<noteq> None then Query_structs T QueriedCell rest (OutMemoryPtrs @ [Data])
        else if ThisStruct = None then None
        else Query_structs T QueriedCell rest OutMemoryPtrs)
     }"

text \<open>Query returns its result and the array OutMemoryPtrs as it leaves it.\<close>

definition Query ::
  "'a UAffinityTable \<Rightarrow> CellTags \<Rightarrow> bool \<Rightarrow> 'a UScriptStruct option list \<Rightarrow> CellDataPtr list \<Rightarrow>
     (bool \<times> CellDataPtr list) option" where
  "Query T InCellTags ExactMatch InStructureTypes OutMemoryPtrs =
     (if Structures T \<noteq> [] then
        (let QueriedCell = (GetRowIndex T (fst InCellTags) ExactMatch,
                            GetColumnIndex T (snd InCellTags) ExactMatch)
         in if fst QueriedCell \<noteq> InvalidIndex \<and> snd QueriedCell \<noteq> InvalidIndex then
              do {
                Out \<leftarrow> Query_structs T QueriedCell InStructureTypes OutMemoryPtrs;
                Some (length Out = length InStructureTypes, Out)
              }
            else Some (False, OutMemoryPtrs))
      else Some (False, OutMemoryPtrs))"

function AddRow :: "'a UAffinityTable \<Rightarrow> FGameplayTag \<Rightarrow> (bool \<times> 'a UAffinityTable) option" where
  "AddRow T InTag =
     (if IsValid InTag \<and> \<not> Contains (Rows T) InTag then
        (case those (map Page_AddRow (Pages T)) of
           None \<Rightarrow> None
         | Some ps \<Rightarrow>
             (case AddRow (T\<lparr>Pages := ps,
                              Rows := AList.update InTag (NextRowIndex T) (Rows T),
                              NextRowIndex := NextRowIndex T + 1\<rparr>)
                     (RequestDirectParent InTag) of
                None \<Rightarrow> None
              | Some (r, T1) \<Rightarrow> Some (True, T1)))
      else Some (False, T))"
  by pat_completeness auto
termination
  by (relation "measure (\<lambda>(T, t). length t)") (auto simp: IsValid_def RequestDirectParent_def)

declare AddRow.simps [simp del]

function AddColumn :: "'a UAffinityTable \<Rightarrow> FGameplayTag \<Rightarrow> (bool \<times> 'a UAffinityTable) option" where
  "AddColumn T InTag =
     (if IsValid InTag \<and> \<not> Contains (Columns T) InTag then
        (case those (map Page_AddColumn (Pages T)) of
           None \<Rightarrow> None
         | Some ps \<Rightarrow>
             (case AddColumn (T\<lparr>Pages := ps,
                                 Columns := AList.update InTag (NextColumnIndex T) (Columns T),
                                 NextColumnIndex := NextColumnIndex T + 1\<rparr>)
                     (RequestDirectParent InTag) of
                None \<Rightarrow> None
              | Some (r, T1) \<Rightarrow> Some (True, T1)))
      else Some (False, T))"
  by pat_completeness auto
termination
  by (relation "measure (\<lambda>(T, t). length t)") (auto simp: IsValid_def RequestDirectParent_def)

declare AddColumn.simps [simp del]

definition DeleteRow :: "'a UAffinityTable \<Rightarrow> FGameplayTag \<Rightarrow> 'a UAffinityTable option" where
  "DeleteRow T InTag =
     (if IsValid InTag \<and> Contains (Rows T) InTag then
        (case map_of (Rows T) InTag of
           None \<Rightarrow> None
         | Some RowIndex \<Rightarrow>
             do {
               ps \<leftarrow> those (map (\<lambda>Page. Page_DeleteRow Page RowIndex) (Pages T));
               Some (T\<lparr>Pages := ps,
                       Rows := AList.delete InTag (Rows T),
                       RowColors := AList.delete InTag (RowColors T)\<rparr>)
             })
      else Some T)"

definition DeleteColumn :: "'a UAffinityTable \<Rightarrow> FGameplayTag \<Rightarrow> 'a UAffinityTable option" where
  "DeleteColumn T InTag =
     (if IsValid InTag \<and> Contains (Columns T) InTag then
        (case map_of (Columns T) InTag of
           None \<Rightarrow> None
         | Some ColIndex \<Rightarrow>
             do {
               ps \<leftarrow> those (map (\<lambda>Page. Page_DeleteColumn Page ColIndex) (Pages T));
               Some (T\<lparr>Pages := ps,
                       Columns := AList.delete InTag (Columns T),
                       ColumnColors := AList.delete InTag (ColumnColors T)\<rparr>)
             })
      else Some T)"

section \<open>Example values\<close>

text \<open>
  Two structures, and the table with the one row A, the one column World and a page for the
  first structure: the state that loading a saved one by one table leaves.
\<close>

definition ExampleStruct :: "nat UScriptStruct" where
  "ExampleStruct = \<lparr>StructFName = ''Damage'', StructureSize = 4, DefaultRecord = 0\<rparr>"

definition OtherStruct :: "nat UScriptStruct" where
  "OtherStruct = \<lparr>StructFName = ''Armor'', StructureSize = 4, DefaultRecord = 0\<rparr>"

definition ExampleBlock :: "nat FStructDatablock" where
  "ExampleBlock = \<lparr>Struct = ExampleStruct, Datablock = Some [0], Capacity = 1, StructSize = 4,
                    NextHandle = 1, FreeHandles = []\<rparr>"

definition ExamplePage :: "bool \<Rightarrow> nat FAffinityTablePage" where
  "ExamplePage fixed =
     \<lparr>PageStruct = ExampleStruct, PageRows = [Some [0]], Datablocks = [ExampleBlock],
      DeletedColumns = {}, PageColumns = 1, FixedMode = fixed, CurrentDatablock = 0\<rparr>"

definition ExampleTable :: "nat UAffinityTable" where
  "ExampleTable =
     \<lparr>Structures = [Some ExampleStruct], RowTags = [[''A'']], ColumnTags = [[''World'']],
      Rows = [([''A''], 0)], Columns = [([''World''], 0)], RowColors = [], ColumnColors = [],
      Pages = [ExamplePage False], InheritanceMaps = [], NextRowIndex = 1, NextColumnIndex = 1,
      bFixedModeActive = False, bHasLoadingErrors = False\<rparr>"

section \<open>Invariants used in the properties\<close>

text \<open>
  The tags that AddRow and AddColumn add for a tag: the tag and its ancestors up to the first
  one that is invalid or already indexed; and the indices they get, counted from the index
  counter.
\<close>

definition NewTags :: "TagMap \<Rightarrow> FGameplayTag \<Rightarrow> FGameplayTag list" where
  "NewTags m t = takeWhile (\<lambda>a. \<not> Contains m a) (AncestorChain t)"

definition IndexFrom :: "TagIndex \<Rightarrow> FGameplayTag list \<Rightarrow> TagMap" where
  "IndexFrom n ts = zip ts (map (\<lambda>i. n + of_nat i) [0..<length ts])"

text \<open>
  The invariant of the data model: every indexed tag has its full ancestor chain indexed.
\<close>

definition HierarchyComplete :: "TagMap \<Rightarrow> bool" where
  "HierarchyComplete m = list_all (\<lambda>k. list_all (Contains m) (AncestorChain k)) (map fst m)"

text \<open>
  A datablock in order: its buffer is allocated and its free handles point into the buffer.
  A page in order: the structure has a size, its datablocks are in order and the cursor
  CurrentDatablock points to one of them. SameGrid relates two states of a page that differ
  in the datablocks and the cursor only.
\<close>

definition BlockOK :: "'a FStructDatablock \<Rightarrow> bool" where
  "BlockOK b =
     (case Datablock b of
        None \<Rightarrow> False
      | Some buf \<Rightarrow> list_all (\<lambda>f. f \<noteq> InvalidHandle \<and> unat f < length buf) (FreeHandles b))"

definition PageOK :: "'a FAffinityTablePage \<Rightarrow> bool" where
  "PageOK p =
     (StructureSize (PageStruct p) \<noteq> 0 \<and> list_all BlockOK (Datablocks p) \<and>
      (Datablocks p = [] \<or> unat (CurrentDatablock p) < length (Datablocks p)))"

definition SameGrid :: "'a FAffinityTablePage \<Rightarrow> 'a FAffinityTablePage \<Rightarrow> bool" where
  "SameGrid p p' =
     (PageStruct p' = PageStruct p \<and> PageRows p' = PageRows p \<and>
      DeletedColumns p' = DeletedColumns p \<and> PageColumns p' = PageColumns p \<and>
      FixedMode p' = FixedMode p)"

text \<open>The table as constructed, before any structure, row or column is added.\<close>

definition EmptyTable :: "nat UAffinityTable" where
  "EmptyTable =
     \<lparr>Structures = [], RowTags = [], ColumnTags = [], Rows = [], Columns = [], RowColors = [],
      ColumnColors = [], Pages = [], InheritanceMaps = [], NextRowIndex = 0, NextColumnIndex = 0,
      bFixedModeActive = False, bHasLoadingErrors = False\<rparr>"

text \<open>
  What indexing a new valid tag t means for an axis map m with index counter n, in terms of
  the map m' and the counter n' afterwards: the added tags follow the old entries and take
  the indices n, n + 1, ... in the order t, parent of t, ...; t has index n; no old entry
  changes; the direct parent of t is indexed when it is a valid tag; and when every tag of m
  had its full ancestor chain indexed, the full ancestor chain of t is indexed and the same
  holds of m'.
\<close>

definition Indexed ::
  "TagMap \<Rightarrow> TagIndex \<Rightarrow> FGameplayTag \<Rightarrow> TagMap \<Rightarrow> TagIndex \<Rightarrow> bool" where
  "Indexed m n t m' n' =
     (m' = m @ IndexFrom n (NewTags m t) \<and>
      n' = n + of_nat (length (NewTags m t)) \<and>
      map_of m' t = Some n \<and>
      list_all (\<lambda>k. map_of m' k = map_of m k) (map fst m) \<and>
      (IsValid (RequestDirectParent t) \<longrightarrow> Contains m' (RequestDirectParent t)) \<and>
      (HierarchyComplete m \<longrightarrow>
         list_all (Contains m') (AncestorChain t) \<and> HierarchyComplete m'))"




section \<open>Persistence\<close>

text \<open>
  The build configuration: the code of the editor is compiled in under WITH_EDITOR, the checks
  for duplicated tags under UE_BUILD_DEVELOPMENT.
\<close>

record BuildConfig =
  WITH_EDITOR :: bool
  UE_BUILD_DEVELOPMENT :: bool

definition FileFormatVersion :: "32 word" where
  "FileFormatVersion = 4"

text \<open>
  An archive is the sequence of the values written to it, each with the type it was written
  as. Reading a value of another type, or from the empty archive, stops the model (None).
  SerializeItem of a structure reads or writes one record.
\<close>

datatype 'a ArchiveItem =
    ArU32 "32 word"
  | ArI32 "32 word"
  | ArString string
  | ArName string
  | ArTag FGameplayTag
  | ArColors "(FGameplayTag \<times> FLinearColor) list"
  | ArItem 'a

type_synonym 'a FArchive = "'a ArchiveItem list"

definition ReadU32 :: "'a FArchive \<Rightarrow> (32 word \<times> 'a FArchive) option" where
  "ReadU32 Ar = (case Ar of ArU32 v # rest \<Rightarrow> Some (v, rest) | _ \<Rightarrow> None)"

definition ReadI32 :: "'a FArchive \<Rightarrow> (32 word \<times> 'a FArchive) option" where
  "ReadI32 Ar = (case Ar of ArI32 v # rest \<Rightarrow> Some (v, rest) | _ \<Rightarrow> None)"

definition ReadString :: "'a FArchive \<Rightarrow> (string \<times> 'a FArchive) option" where
  "ReadString Ar = (case Ar of ArString v # rest \<Rightarrow> Some (v, rest) | _ \<Rightarrow> None)"

definition ReadName :: "'a FArchive \<Rightarrow> (string \<times> 'a FArchive) option" where
  "ReadName Ar = (case Ar of ArName v # rest \<Rightarrow> Some (v, rest) | _ \<Rightarrow> None)"

definition ReadTag :: "'a FArchive \<Rightarrow> (FGameplayTag \<times> 'a FArchive) option" where
  "ReadTag Ar = (case Ar of ArTag v # rest \<Rightarrow> Some (v, rest) | _ \<Rightarrow> None)"

definition ReadColors ::
  "'a FArchive \<Rightarrow> ((FGameplayTag \<times> FLinearColor) list \<times> 'a FArchive) option" where
  "ReadColors Ar = (case Ar of ArColors v # rest \<Rightarrow> Some (v, rest) | _ \<Rightarrow> None)"

definition ReadItem :: "'a FArchive \<Rightarrow> ('a \<times> 'a FArchive) option" where
  "ReadItem Ar = (case Ar of ArItem v # rest \<Rightarrow> Some (v, rest) | _ \<Rightarrow> None)"


definition WriteCell :: "'a FAffinityTablePage \<Rightarrow> nat \<times> nat \<Rightarrow> 'a \<Rightarrow> 'a FAffinityTablePage option" where
  "WriteCell p ptr v =
     (if fst ptr < length (Datablocks p) then
        do {
          b \<leftarrow> WriteRecord (Datablocks p ! fst ptr) (Some (snd ptr)) v;
          Some (p\<lparr>Datablocks := (Datablocks p)[fst ptr := b]\<rparr>)
        }
      else None)"





text \<open>The cells of SerializePage, in the order of its two loops.\<close>

definition SerializePage_cells :: "'a UAffinityTable \<Rightarrow> Cell list" where
  "SerializePage_cells T = concat (map (\<lambda>Row. map (\<lambda>Column. (snd Row, snd Column)) (Columns T)) (Rows T))"


fun SerializePage_load ::
  "'a FAffinityTablePage \<Rightarrow> Cell list \<Rightarrow> 'a FArchive \<Rightarrow> ('a FAffinityTablePage \<times> 'a FArchive) option" where
  "SerializePage_load Page [] Ar = Some (Page, Ar)"
| "SerializePage_load Page (c # cs) Ar =
     do {
       DataPtr \<leftarrow> GetDatablockPtr Page (fst c) (snd c);
       (case DataPtr of
          None \<Rightarrow> SerializePage_load Page cs Ar
        | Some ptr \<Rightarrow>
            do {
              (v, Ar1) \<leftarrow> ReadItem Ar;
              Page1 \<leftarrow> WriteCell Page ptr v;
              SerializePage_load Page1 cs Ar1
            })
     }"






text \<open>ClearTable and GenerateRowAndColumnMaps.\<close>

definition ClearTable :: "'a UAffinityTable \<Rightarrow> 'a UAffinityTable" where
  "ClearTable T =
     T\<lparr>Pages := [], Rows := [], Columns := [], RowColors := [], ColumnColors := [],
       InheritanceMaps := [], NextRowIndex := 0, NextColumnIndex := 0\<rparr>"

fun GenerateRows :: "BuildConfig \<Rightarrow> FGameplayTag list \<Rightarrow> 'a UAffinityTable \<Rightarrow> 'a UAffinityTable" where
  "GenerateRows cfg [] T = T"
| "GenerateRows cfg (Tag # rest) T =
     (if UE_BUILD_DEVELOPMENT cfg \<and> Contains (Rows T) Tag
      then GenerateRows cfg rest (T\<lparr>bHasLoadingErrors := True\<rparr>)
      else GenerateRows cfg rest
             (T\<lparr>Rows := AList.update Tag (NextRowIndex T) (Rows T),
                NextRowIndex := NextRowIndex T + 1\<rparr>))"

fun GenerateColumns :: "BuildConfig \<Rightarrow> FGameplayTag list \<Rightarrow> 'a UAffinityTable \<Rightarrow> 'a UAffinityTable" where
  "GenerateColumns cfg [] T = T"
| "GenerateColumns cfg (Tag # rest) T =
     (if UE_BUILD_DEVELOPMENT cfg \<and> Contains (Columns T) Tag
      then GenerateColumns cfg rest (T\<lparr>bHasLoadingErrors := True\<rparr>)
      else GenerateColumns cfg rest
             (T\<lparr>Columns := AList.update Tag (NextColumnIndex T) (Columns T),
                NextColumnIndex := NextColumnIndex T + 1\<rparr>))"

definition GenerateRowAndColumnMaps :: "BuildConfig \<Rightarrow> 'a UAffinityTable \<Rightarrow> 'a UAffinityTable option" where
  "GenerateRowAndColumnMaps cfg T =
     (if \<not> (NextRowIndex T = 0 \<and> Rows T = []) then None
      else if \<not> (NextColumnIndex T = 0 \<and> Columns T = []) then None
      else Some (GenerateColumns cfg (ColumnTags T) (GenerateRows cfg (RowTags T) T)))"

text \<open>
  EnsureTagHierarchy. The sets Orphans and Tails are kept as lists without repetition, in the
  order of insertion. FindOrphans_walk is the while loop of FindOrphans for one tag, started
  at its direct parent; it returns bFoundOrphan.
\<close>

definition TSet_Add :: "'k list \<Rightarrow> 'k \<Rightarrow> 'k list" where
  "TSet_Add s x = (if x \<in> set s then s else s @ [x])"

function FindOrphans_walk :: "FGameplayTag list \<Rightarrow> FGameplayTag list \<Rightarrow> FGameplayTag \<Rightarrow> bool" where
  "FindOrphans_walk Tails Tags ParentTag =
     (if IsValid ParentTag then
        (if ParentTag \<in> set Tails then False
         else if ParentTag \<in> set Tags
              then FindOrphans_walk Tails Tags (RequestDirectParent ParentTag)
              else True)
      else False)"
  by pat_completeness auto
termination
  by (relation "measure (\<lambda>(ta, tg, t). length t)") (auto simp: IsValid_def RequestDirectParent_def)

declare FindOrphans_walk.simps [simp del]

fun FindOrphans_loop ::
  "FGameplayTag list \<Rightarrow> FGameplayTag list \<Rightarrow> FGameplayTag list \<Rightarrow> FGameplayTag list \<Rightarrow>
     FGameplayTag list" where
  "FindOrphans_loop Tags [] Orphans Tails = Orphans"
| "FindOrphans_loop Tags (Tag # rest) Orphans Tails =
     (if FindOrphans_walk Tails Tags (RequestDirectParent Tag)
      then FindOrphans_loop Tags rest (TSet_Add Orphans Tag) Tails
      else FindOrphans_loop Tags rest Orphans (TSet_Add Tails Tag))"

definition FindOrphans :: "FGameplayTag list \<Rightarrow> FGameplayTag list" where
  "FindOrphans Tags = FindOrphans_loop Tags Tags [] []"

fun DeleteRows :: "'a UAffinityTable \<Rightarrow> FGameplayTag list \<Rightarrow> 'a UAffinityTable option" where
  "DeleteRows T [] = Some T"
| "DeleteRows T (Row # rest) = do { T1 \<leftarrow> DeleteRow T Row; DeleteRows T1 rest }"

fun DeleteColumns :: "'a UAffinityTable \<Rightarrow> FGameplayTag list \<Rightarrow> 'a UAffinityTable option" where
  "DeleteColumns T [] = Some T"
| "DeleteColumns T (Column # rest) = do { T1 \<leftarrow> DeleteColumn T Column; DeleteColumns T1 rest }"

definition EnsureTagHierarchy :: "'a UAffinityTable \<Rightarrow> 'a UAffinityTable option" where
  "EnsureTagHierarchy T =
     (let OrphanRows = FindOrphans (RowTags T)
      in do {
           T1 \<leftarrow> DeleteRows T OrphanRows;
           let OrphanColumns = FindOrphans (ColumnTags T1) in
           do {
             T2 \<leftarrow> DeleteColumns T1 OrphanColumns;
             Some (T2\<lparr>bHasLoadingErrors :=
                        bHasLoadingErrors T2 \<or> OrphanRows \<noteq> [] \<or> OrphanColumns \<noteq> []\<rparr>)
           }
         })"

text \<open>
  LoadTable. The loops that load the pages and the inheritance maps run while their counter
  is not zero. Loading the pages ends with Inl when the archive names a structure that the
  table does not have, which makes LoadTable return early. The name read from the archive is
  an FString, and operator== of FString compares without regard to the case of the letters:
  FString_eq compares two strings after the letters A to Z are replaced by a to z.
\<close>

definition ToLower :: "char \<Rightarrow> char" where
  "ToLower c =
     (case map_of (zip ''ABCDEFGHIJKLMNOPQRSTUVWXYZ'' ''abcdefghijklmnopqrstuvwxyz'') c of
        Some l \<Rightarrow> l
      | None \<Rightarrow> c)"

definition FString_eq :: "string \<Rightarrow> string \<Rightarrow> bool" where
  "FString_eq a b = (map ToLower a = map ToLower b)"

definition FindStructByName :: "'a UAffinityTable \<Rightarrow> string \<Rightarrow> 'a UScriptStruct option" where
  "FindStructByName T StructureName =
     (case find (\<lambda>S. case S of None \<Rightarrow> False
                            | Some S1 \<Rightarrow> FString_eq (StructFName S1) StructureName)
             (Structures T) of
        Some (Some S1) \<Rightarrow> Some S1
      | _ \<Rightarrow> None)"

fun LoadTable_pages ::
  "bool \<Rightarrow> nat \<Rightarrow> 'a UAffinityTable \<Rightarrow> 'a FArchive \<Rightarrow>
     ('a UAffinityTable + 'a UAffinityTable \<times> 'a FArchive) option" where
  "LoadTable_pages footprint 0 T Ar = Some (Inr (T, Ar))"
| "LoadTable_pages footprint (Suc PagesToLoad) T Ar =
     do {
       (StructureName, Ar1) \<leftarrow> ReadString Ar;
       (StructureFootprint, Ar2) \<leftarrow> (if footprint then ReadI32 Ar1 else Some (0, Ar1));
       (case FindStructByName T StructureName of
          None \<Rightarrow> Some (Inl (T\<lparr>bHasLoadingErrors := True\<rparr>))
        | Some ScriptStruct \<Rightarrow>
            do {
              Page \<leftarrow> FAffinityTablePage_new ScriptStruct (of_nat (length (Rows T)))
                        (of_nat (length (Columns T))) (bFixedModeActive T);
              (Page1, Ar3) \<leftarrow>
                SerializePage_load Page (SerializePage_cells T) Ar2;
              LoadTable_pages footprint PagesToLoad (T\<lparr>Pages := Pages T @ [Page1]\<rparr>) Ar3
            })
     }"

fun LoadTable_link ::
  "nat \<Rightarrow> InheritanceMap \<Rightarrow> 'a FArchive \<Rightarrow> (InheritanceMap \<times> 'a FArchive) option" where
  "LoadTable_link 0 Map Ar = Some (Map, Ar)"
| "LoadTable_link (Suc n) Map Ar =
     do {
       (CellID, Ar1) \<leftarrow> ReadString Ar;
       (ParentRow, Ar2) \<leftarrow> ReadTag Ar1;
       (ParentColumn, Ar3) \<leftarrow> ReadTag Ar2;
       LoadTable_link n (AList.update CellID (ParentRow, ParentColumn) Map) Ar3
     }"

fun LoadTable_links ::
  "nat \<Rightarrow> 'a UAffinityTable \<Rightarrow> 'a FArchive \<Rightarrow> ('a UAffinityTable \<times> 'a FArchive) option" where
  "LoadTable_links 0 T Ar = Some (T, Ar)"
| "LoadTable_links (Suc PagesToLoad) T Ar =
     do {
       (StructName, Ar1) \<leftarrow> ReadName Ar;
       (LinkCount, Ar2) \<leftarrow> ReadI32 Ar1;
       (T1, Ar3) \<leftarrow>
         (if LinkCount \<noteq> 0 then
            do {
              (Map, Ar4) \<leftarrow>
                LoadTable_link (nat (sint LinkCount))
                  (case map_of (InheritanceMaps T) StructName of Some m \<Rightarrow> m | None \<Rightarrow> []) Ar2;
              Some (T\<lparr>InheritanceMaps := AList.update StructName Map (InheritanceMaps T)\<rparr>, Ar4)
            }
          else Some (T, Ar2));
       LoadTable_links PagesToLoad T1 Ar3
     }"

text \<open>
  The body that LoadTable and LoadTable_V3 share; a version 3 archive has no footprints. The
  result tells, with the table, whether the body ran to its end (True) or returned early.
\<close>

definition LoadTable_body ::
  "BuildConfig \<Rightarrow> bool \<Rightarrow> 'a UAffinityTable \<Rightarrow> 'a FArchive \<Rightarrow> (bool \<times> 'a UAffinityTable) option" where
  "LoadTable_body cfg footprint T Ar =
     do {
       T1 \<leftarrow> GenerateRowAndColumnMaps cfg T;
       if UE_BUILD_DEVELOPMENT cfg \<and> bHasLoadingErrors T1 then Some (False, T1)
       else
         do {
           (PagesToLoad, Ar1) \<leftarrow> ReadI32 Ar;
           r \<leftarrow> LoadTable_pages footprint (unat PagesToLoad) T1 Ar1;
           (case r of
              Inl T2 \<Rightarrow> Some (False, T2)
            | Inr (T2, Ar2) \<Rightarrow>
                do {
                  (rc, Ar3) \<leftarrow> ReadColors Ar2;
                  (cc, Ar4) \<leftarrow> ReadColors Ar3;
                  (PagesToLoad2, Ar5) \<leftarrow> ReadI32 Ar4;
                  (T3, Ar6) \<leftarrow>
                    LoadTable_links (unat PagesToLoad2) (T2\<lparr>RowColors := rc, ColumnColors := cc\<rparr>) Ar5;
                  T4 \<leftarrow> (if WITH_EDITOR cfg then EnsureTagHierarchy T3 else Some T3);
                  Some (True, T4)
                })
         }
     }"

definition LoadTable_run ::
  "BuildConfig \<Rightarrow> 'a UAffinityTable \<Rightarrow> 'a FArchive \<Rightarrow> (bool \<times> 'a UAffinityTable) option" where
  "LoadTable_run cfg T Ar =
     (let T0 = ClearTable T
      in do {
           (ArchiveFormat, Ar1) \<leftarrow> ReadU32 Ar;
           if ArchiveFormat < FileFormatVersion then
             (if ArchiveFormat = 3 then LoadTable_body cfg False T0 Ar1 else Some (False, T0))
           else LoadTable_body cfg True T0 Ar1
         })"

definition LoadTable :: "BuildConfig \<Rightarrow> 'a UAffinityTable \<Rightarrow> 'a FArchive \<Rightarrow> 'a UAffinityTable option" where
  "LoadTable cfg T Ar = map_option snd (LoadTable_run cfg T Ar)"

text \<open>
  A tag of the list Tags is an orphan when one of its proper ancestors is not in the list.
\<close>

definition IsOrphan :: "FGameplayTag list \<Rightarrow> FGameplayTag \<Rightarrow> bool" where
  "IsOrphan Tags t = (\<not> list_all (\<lambda>a. a \<in> set Tags) (AncestorChain (RequestDirectParent t)))"

text \<open>
  SameAxes relates two states of a table with the same tags, index maps, counters and
  structures.
\<close>

definition SameAxes :: "'a UAffinityTable \<Rightarrow> 'a UAffinityTable \<Rightarrow> bool" where
  "SameAxes T T' =
     (Rows T' = Rows T \<and> Columns T' = Columns T \<and> RowTags T' = RowTags T \<and>
      ColumnTags T' = ColumnTags T \<and> NextRowIndex T' = NextRowIndex T \<and>
      NextColumnIndex T' = NextColumnIndex T \<and> Structures T' = Structures T \<and>
      bFixedModeActive T' = bFixedModeActive T)"

text \<open>
  The configurations of an editor build and of a game build; and the object of a table whose
  row tags A.B, C and C.D were read from the asset: A, the parent of A.B, is not among them.
\<close>

definition EditorConfig :: BuildConfig where
  "EditorConfig = \<lparr>WITH_EDITOR = True, UE_BUILD_DEVELOPMENT = True\<rparr>"

definition GameConfig :: BuildConfig where
  "GameConfig = \<lparr>WITH_EDITOR = False, UE_BUILD_DEVELOPMENT = False\<rparr>"

definition OrphanTable :: "nat UAffinityTable" where
  "OrphanTable = EmptyTable\<lparr>RowTags := [[''A'', ''B''], [''C''], [''C'', ''D'']]\<rparr>"

text \<open>
  The pointers that the loop of Query adds to OutMemoryPtrs for a cell: the non-null pointers
  that GetCellData yields for the requested structures, in the order of the request.
\<close>

definition Resolved ::
  "'a UAffinityTable \<Rightarrow> Cell \<Rightarrow> 'a UScriptStruct option list \<Rightarrow> CellDataPtr list" where
  "Resolved T QueriedCell InStructureTypes =
     concat (map (\<lambda>ThisStruct. case GetCellData T QueriedCell ThisStruct of
                                 Some (Some p) \<Rightarrow> [Some p]
                               | _ \<Rightarrow> [])
               InStructureTypes)"











text \<open>
  The handle of a page for the record h of datablock i, as MakeHandle packs it. A handle is
  live in a page when it decodes to a datablock of the page and a handle issued there.
  Grows relates a page to a later state of it in which its datablocks are well formed and
  every live handle is still live; Fresh says that a handle which is not the invalid one was
  not live before and is live after.
\<close>

definition HandleOf :: "32 word \<Rightarrow> DatablockHandle \<Rightarrow> DataHandle" where
  "HandleOf i h = push_bit 32 (ucast i) OR ucast h"


























section \<open>Properties of the tag lookup\<close>

lemma AncestorChain_Nil [simp]: "AncestorChain [] = []"
  by (simp add: AncestorChain.simps)

lemma AncestorChain_Cons: "t \<noteq> [] \<Longrightarrow> AncestorChain t = t # AncestorChain (butlast t)"
  by (subst AncestorChain.simps) simp

lemma AncestorChain_length: "a \<in> set (AncestorChain t) \<Longrightarrow> length a \<le> length t"
proof (induction t rule: length_induct)
  case (1 t)
  show ?case
  proof (cases "t = []")
    case True
    with 1 show ?thesis by simp
  next
    case False
    with "1.prems" have "a = t \<or> a \<in> set (AncestorChain (butlast t))"
      by (simp add: AncestorChain_Cons)
    then show ?thesis
    proof
      assume "a = t" then show ?thesis by simp
    next
      assume "a \<in> set (AncestorChain (butlast t))"
      moreover have "length (butlast t) < length t" using False by simp
      ultimately have "length a \<le> length (butlast t)" using "1.IH" by blast
      then show ?thesis by simp
    qed
  qed
qed

lemma GetIndex_invalid: "\<not> IsValid t \<Longrightarrow> GetIndex m t e = InvalidIndex"
  by (simp add: GetIndex.simps)

lemma GetIndex_exact:
  "IsValid t \<Longrightarrow>
     GetIndex m t True = (case map_of m t of Some i \<Rightarrow> i | None \<Rightarrow> InvalidIndex)"
  by (simp add: GetIndex.simps split: option.splits)

lemma GetIndex_closest:
  "GetIndex m t False =
     (case find (Contains m) (AncestorChain t) of
        Some a \<Rightarrow> the (map_of m a)
      | None \<Rightarrow> InvalidIndex)"
proof (induction t rule: length_induct)
  case (1 t)
  show ?case
  proof (cases "t = []")
    case True
    then show ?thesis by (simp add: GetIndex.simps IsValid_def)
  next
    case False
    then have len: "length (butlast t) < length t" by simp
    show ?thesis
    proof (cases "map_of m t")
      case None
      have "GetIndex m t False = GetIndex m (butlast t) False"
        using False None by (subst GetIndex.simps) (simp add: IsValid_def RequestDirectParent_def)
      also have "\<dots> = (case find (Contains m) (AncestorChain (butlast t)) of
                          Some a \<Rightarrow> the (map_of m a) | None \<Rightarrow> InvalidIndex)"
        using 1 len by blast
      also have "\<dots> = (case find (Contains m) (AncestorChain t) of
                          Some a \<Rightarrow> the (map_of m a) | None \<Rightarrow> InvalidIndex)"
        using False None by (simp add: AncestorChain_Cons Contains_def)
      finally show ?thesis .
    next
      case (Some i)
      then show ?thesis using False
        by (subst GetIndex.simps) (simp add: AncestorChain_Cons IsValid_def Contains_def)
    qed
  qed
qed

text \<open>
  C2, as stated, fails for the invalid (empty) tag in a map that indexes it.
  GenerateRowAndColumnMaps indexes every tag of the list RowTags without a test of its
  validity, so a table loaded with the invalid tag among its row tags maps it to the index 0;
  for that map the exact and the closest-match lookup of the invalid tag both return
  InvalidIndex, not the mapped index.
\<close>

theorem GetIndex_invalid_tag_counterexample:
  "GenerateRowAndColumnMaps GameConfig (EmptyTable\<lparr>RowTags := [EmptyTag]\<rparr>) =
     Some (EmptyTable\<lparr>RowTags := [EmptyTag], Rows := [(EmptyTag, 0)], NextRowIndex := 1\<rparr>) \<and>
   map_of [(EmptyTag, 0 :: TagIndex)] EmptyTag = Some 0 \<and>
   GetIndex [(EmptyTag, 0)] EmptyTag True = InvalidIndex \<and>
   GetIndex [(EmptyTag, 0)] EmptyTag False = InvalidIndex \<and>
   InvalidIndex \<noteq> 0"
  by (simp add: GenerateRowAndColumnMaps_def GameConfig_def EmptyTable_def EmptyTag_def
      GetIndex.simps IsValid_def InvalidIndex_def)

text \<open>
  C2, amended. For every axis map m and every valid tag t: the exact lookup returns the index
  mapped to t, or InvalidIndex when t is not indexed; the closest-match lookup returns the
  index of the first indexed tag of the chain t, parent of t, ..., root, or InvalidIndex when
  none of them is indexed. For an invalid tag both lookups return InvalidIndex, whatever the
  map holds. With only A indexed, the closest-match lookup of A.B.C returns the index of A
  and the exact lookup of A.B.C returns InvalidIndex.
\<close>

theorem GetIndex_lookup:
  "GetIndex m t True =
     (if IsValid t then (case map_of m t of Some i \<Rightarrow> i | None \<Rightarrow> InvalidIndex)
      else InvalidIndex) \<and>
   GetIndex m t False =
     (if IsValid t
      then (case find (Contains m) (AncestorChain t) of
              Some a \<Rightarrow> the (map_of m a)
            | None \<Rightarrow> InvalidIndex)
      else InvalidIndex) \<and>
   GetIndex [([''A''], i)] [''A'', ''B'', ''C''] False = i \<and>
   GetIndex [([''A''], i)] [''A'', ''B'', ''C''] True = InvalidIndex"
proof -
  have "GetIndex m t True =
     (if IsValid t then (case map_of m t of Some i \<Rightarrow> i | None \<Rightarrow> InvalidIndex)
      else InvalidIndex)"
    by (simp add: GetIndex_exact GetIndex_invalid)
  moreover have "GetIndex m t False =
     (if IsValid t
      then (case find (Contains m) (AncestorChain t) of
              Some a \<Rightarrow> the (map_of m a)
            | None \<Rightarrow> InvalidIndex)
      else InvalidIndex)"
    by (cases "IsValid t") (simp_all add: GetIndex_closest IsValid_def)
  moreover have "GetIndex [([''A''], i)] [''A'', ''B'', ''C''] False = i"
    by (simp add: GetIndex_closest Contains_def AncestorChain_Cons)
  moreover have "GetIndex [([''A''], i)] [''A'', ''B'', ''C''] True = InvalidIndex"
    by (simp add: GetIndex_exact IsValid_def)
  ultimately show ?thesis by blast
qed

theorem GetIndex_lookup_witness:
  "IsValid [''A'', ''B''] \<and>
   GetIndex [([''A''], 7)] [''A'', ''B''] True = InvalidIndex \<and>
   GetIndex [([''A''], 7)] [''A'', ''B''] False = 7 \<and>
   \<not> IsValid EmptyTag \<and>
   GetIndex [(EmptyTag, 7)] EmptyTag True = InvalidIndex"
  using GetIndex_lookup [of "[([''A''], 7)]" "[''A'', ''B'']" 7]
    GetIndex_lookup [of "[(EmptyTag, 7)]" EmptyTag 7]
  by (simp add: Contains_def AncestorChain_Cons IsValid_def EmptyTag_def)

section \<open>Properties of Query\<close>

lemma Query_structs_prefix:
  "Query_structs T c ss out = Some out' \<Longrightarrow> take (length out) out' = out"
proof (induction ss arbitrary: out)
  case Nil
  then show ?case by simp
next
  case (Cons s ss)
  from Cons.prems obtain d where d: "GetCellData T c s = Some d"
    by (auto split: Option.bind_splits)
  show ?case
  proof (cases d)
    case None
    with d Cons.prems have "Query_structs T c ss out = Some out'"
      by (auto split: if_splits)
    from Cons.IH[OF this] show ?thesis .
  next
    case (Some p)
    with d Cons.prems have "Query_structs T c ss (out @ [Some p]) = Some out'"
      by (simp del: split_paired_Ex)
    from Cons.IH[OF this] have "take (Suc (length out)) out' = out @ [Some p]" by simp
    then have "take (length out) (take (Suc (length out)) out') = take (length out) (out @ [Some p])"
      by simp
    then show ?thesis by (simp add: min_def)
  qed
qed

lemma Query_structs_length:
  "Query_structs T c ss out = Some out' \<Longrightarrow>
     length out' \<le> length out + length ss \<and>
     (length out' = length out + length ss \<longleftrightarrow>
        (\<forall>s \<in> set ss. \<exists>p. GetCellData T c s = Some (Some p)))"
proof (induction ss arbitrary: out)
  case Nil
  then show ?case by simp
next
  case (Cons s ss)
  from Cons.prems obtain d where d: "GetCellData T c s = Some d"
    by (auto split: Option.bind_splits)
  show ?case
  proof (cases d)
    case None
    with d Cons.prems have "Query_structs T c ss out = Some out'"
      by (auto split: if_splits)
    from Cons.IH[OF this] show ?thesis using d None by (auto simp del: split_paired_Ex)
  next
    case (Some p)
    with d Cons.prems have "Query_structs T c ss (out @ [Some p]) = Some out'"
      by (simp del: split_paired_Ex)
    from Cons.IH[OF this] show ?thesis using d Some by (auto simp del: split_paired_Ex)
  qed
qed

lemma Query_structs_total:
  "\<forall>s \<in> set ss. \<exists>p. GetCellData T c s = Some (Some p) \<Longrightarrow>
     \<exists>out'. Query_structs T c ss out = Some out'"
  by (induction ss arbitrary: out) (auto simp del: split_paired_Ex)

lemma Query_prefix:
  assumes "Query T tags e ss out = Some (res, out')"
  shows "take (length out) out' = out"
proof (cases "Structures T \<noteq> [] \<and> GetRowIndex T (fst tags) e \<noteq> InvalidIndex \<and>
           GetColumnIndex T (snd tags) e \<noteq> InvalidIndex")
  case True
  with assms have
    "Query_structs T (GetRowIndex T (fst tags) e, GetColumnIndex T (snd tags) e) ss out = Some out'"
    by (simp add: Query_def split: Option.bind_splits)
  then show ?thesis by (rule Query_structs_prefix)
next
  case False
  with assms have "out' = out" by (auto simp: Query_def Let_def split: if_splits)
  then show ?thesis by simp
qed

lemmas Example_defs =
  ExampleTable_def ExamplePage_def ExampleBlock_def ExampleStruct_def OtherStruct_def

lemmas Query_defs =
  Query_def GetRowIndex_def GetColumnIndex_def GetIndex.simps IsValid_def InvalidIndex_def
  GetCellData_def GetPageForStruct_def GetDatablockPtr_def GetRow_def GetDatablockPtr_handle_def
  GetHandleData_def InvalidDataHandle_def InvalidHandle_def GetMemoryBlock_def

lemma Example_indices:
  "GetRowIndex ExampleTable [''A''] True = 0 \<and> GetColumnIndex ExampleTable [''World''] True = 0"
  by (simp add: Example_defs Query_defs)

lemma Example_GetCellData:
  "GetCellData ExampleTable (0, 0) (Some ExampleStruct) = Some (Some (''Damage'', 0, 0)) \<and>
   GetCellData ExampleTable (0, 0) (Some OtherStruct) = Some None"
  by (simp add: Example_defs Query_defs)

lemma Example_Query:
  "Query ExampleTable ([''A''], [''World'']) True [Some ExampleStruct] [] =
     Some (True, [Some (''Damage'', 0, 0)])"
  by (simp add: Example_defs Query_defs)

lemma Query_structs_result:
  "Query_structs T c ss out = Some out' \<Longrightarrow> out' = out @ Resolved T c ss"
proof (induction ss arbitrary: out)
  case Nil
  then show ?case by (simp add: Resolved_def)
next
  case (Cons s ss)
  from Cons.prems obtain d where d: "GetCellData T c s = Some d"
    by (auto split: Option.bind_splits)
  show ?case
  proof (cases d)
    case None
    with d Cons.prems have "Query_structs T c ss out = Some out'"
      by (auto split: if_splits)
    from Cons.IH[OF this] show ?thesis using d None by (simp add: Resolved_def)
  next
    case (Some p)
    with d Cons.prems have "Query_structs T c ss (out @ [Some p]) = Some out'"
      by (simp del: split_paired_Ex)
    from Cons.IH[OF this] show ?thesis using d Some by (simp add: Resolved_def)
  qed
qed

lemma Query_structs_returns:
  "list_all (\<lambda>s. s \<noteq> None \<and> GetCellData T c s \<noteq> None) ss \<Longrightarrow>
     Query_structs T c ss out = Some (out @ Resolved T c ss)"
proof (induction ss arbitrary: out)
  case Nil
  show ?case by (simp add: Resolved_def)
next
  case (Cons s ss)
  then obtain d where d: "GetCellData T c s = Some d" and s: "s \<noteq> None"
    and rest: "list_all (\<lambda>s. s \<noteq> None \<and> GetCellData T c s \<noteq> None) ss"
    by auto
  have r: "Resolved T c (s # ss) = (case d of Some p \<Rightarrow> [Some p] | None \<Rightarrow> []) @ Resolved T c ss"
    using d by (simp add: Resolved_def split: option.splits)
  show ?case
  proof (cases d)
    case None
    then show ?thesis using d s r Cons.IH[OF rest, of out] by simp
  next
    case (Some p)
    then show ?thesis using d r Cons.IH[OF rest, of "out @ [Some p]"]
      by (simp del: split_paired_Ex)
  qed
qed

lemma Resolved_length:
  "length (Resolved T c ss) \<le> length ss \<and>
   (length (Resolved T c ss) = length ss \<longleftrightarrow>
      list_all (\<lambda>s. case GetCellData T c s of Some (Some p) \<Rightarrow> True | _ \<Rightarrow> False) ss)"
proof (induction ss)
  case Nil
  show ?case by (simp add: Resolved_def)
next
  case (Cons s ss)
  have r: "Resolved T c (s # ss) =
             (case GetCellData T c s of Some (Some p) \<Rightarrow> [Some p] | _ \<Rightarrow> []) @ Resolved T c ss"
    by (simp add: Resolved_def)
  show ?case unfolding r using Cons by (auto split: option.splits)
qed

text \<open>
  What Query returns when no check stops it: the array it was given followed by the resolved
  pointers, and the comparison of the length of that array with the number of requested
  structures. With an empty array on entry the result is true exactly when both indices are
  valid and every requested structure yields a pointer.
\<close>

lemma Query_returns:
  assumes "list_all (\<lambda>s. s \<noteq> None \<and>
             GetCellData T (GetRowIndex T (fst tags) e, GetColumnIndex T (snd tags) e) s \<noteq> None) ss"
  shows "Query T tags e ss out =
           (if Structures T \<noteq> [] \<and> GetRowIndex T (fst tags) e \<noteq> InvalidIndex \<and>
               GetColumnIndex T (snd tags) e \<noteq> InvalidIndex
            then Some (length out +
                         length (Resolved T (GetRowIndex T (fst tags) e,
                                             GetColumnIndex T (snd tags) e) ss) = length ss,
                       out @ Resolved T (GetRowIndex T (fst tags) e,
                                         GetColumnIndex T (snd tags) e) ss)
            else Some (False, out))"
  using Query_structs_returns[OF assms, of out]
  by (simp add: Query_def Let_def)

lemma Query_empty_output:
  assumes "list_all (\<lambda>s. s \<noteq> None \<and>
             GetCellData T (GetRowIndex T (fst tags) e, GetColumnIndex T (snd tags) e) s \<noteq> None) ss"
  shows "\<exists>out'. Query T tags e ss [] =
           Some (Structures T \<noteq> [] \<and> GetRowIndex T (fst tags) e \<noteq> InvalidIndex \<and>
                 GetColumnIndex T (snd tags) e \<noteq> InvalidIndex \<and>
                 list_all (\<lambda>s. case GetCellData T (GetRowIndex T (fst tags) e,
                                                    GetColumnIndex T (snd tags) e) s of
                                  Some (Some p) \<Rightarrow> True | _ \<Rightarrow> False) ss, out')"
  using Query_returns[OF assms, of "[]"]
    Resolved_length[of T "(GetRowIndex T (fst tags) e, GetColumnIndex T (snd tags) e)" ss]
  by (simp del: split_paired_Ex)

text \<open>
  C1. Query takes its result from the comparison OutMemoryPtrs.Num() == InStructureTypes.Num()
  on an array that it only appends to and never resets. When the caller passes an array that
  already holds one pointer, the query for the registered structure of an indexed cell
  returns false although both indices are valid and its pointer is found, and the query for
  that structure and an unregistered one returns true although the unregistered one yields
  no pointer.
\<close>

theorem Query_stale_output:
  "Structures ExampleTable \<noteq> [] \<and>
   GetRowIndex ExampleTable [''A''] True \<noteq> InvalidIndex \<and>
   GetColumnIndex ExampleTable [''World''] True \<noteq> InvalidIndex \<and>
   GetCellData ExampleTable
     (GetRowIndex ExampleTable [''A''] True, GetColumnIndex ExampleTable [''World''] True)
     (Some ExampleStruct) = Some (Some (''Damage'', 0, 0)) \<and>
   Query ExampleTable ([''A''], [''World'']) True [Some ExampleStruct] [Some (''Damage'', 0, 0)] =
     Some (False, [Some (''Damage'', 0, 0), Some (''Damage'', 0, 0)]) \<and>
   GetCellData ExampleTable
     (GetRowIndex ExampleTable [''A''] True, GetColumnIndex ExampleTable [''World''] True)
     (Some OtherStruct) = Some None \<and>
   Query ExampleTable ([''A''], [''World'']) True [Some ExampleStruct, Some OtherStruct]
     [Some (''Damage'', 0, 0)] =
     Some (True, [Some (''Damage'', 0, 0), Some (''Damage'', 0, 0)])"
  by (simp add: Example_defs Query_defs)

text \<open>
  C10. The failure of Query is not atomic in OutMemoryPtrs. Whenever Query returns false, the
  array it leaves is the array it was given followed by the pointers of all the requested
  structures that did resolve (none when the table has no structure or an index is invalid):
  nothing is cleared or rolled back. For the registered structure followed by an unregistered
  one, Query returns false and leaves the pointer of the structure that did resolve in the
  array.
\<close>

theorem Query_failure_keeps_partial_output:
  "(Query T tags e ss out = Some (False, out') \<longrightarrow>
      out' = out @ (if Structures T \<noteq> [] \<and> GetRowIndex T (fst tags) e \<noteq> InvalidIndex \<and>
                       GetColumnIndex T (snd tags) e \<noteq> InvalidIndex
                    then Resolved T (GetRowIndex T (fst tags) e, GetColumnIndex T (snd tags) e) ss
                    else [])) \<and>
   GetCellData ExampleTable (0, 0) (Some ExampleStruct) = Some (Some (''Damage'', 0, 0)) \<and>
   GetCellData ExampleTable (0, 0) (Some OtherStruct) = Some None \<and>
   Query ExampleTable ([''A''], [''World'']) True [Some ExampleStruct, Some OtherStruct] [] =
     Some (False, [Some (''Damage'', 0, 0)])"
proof -
  let ?c = "(GetRowIndex T (fst tags) e, GetColumnIndex T (snd tags) e)"
  have "out' = out @ (if Structures T \<noteq> [] \<and> fst ?c \<noteq> InvalidIndex \<and> snd ?c \<noteq> InvalidIndex
                      then Resolved T ?c ss else [])"
    if run: "Query T tags e ss out = Some (False, out')"
  proof (cases "Structures T \<noteq> [] \<and> fst ?c \<noteq> InvalidIndex \<and> snd ?c \<noteq> InvalidIndex")
    case True
    with run have "Query_structs T ?c ss out = Some out'"
      by (simp add: Query_def split: Option.bind_splits)
    from Query_structs_result[OF this] True show ?thesis by simp
  next
    case False
    with run have "out' = out" by (auto simp: Query_def Let_def split: if_splits)
    with False show ?thesis by auto
  qed
  moreover have
    "Query ExampleTable ([''A''], [''World'']) True [Some ExampleStruct, Some OtherStruct] [] =
       Some (False, [Some (''Damage'', 0, 0)])"
    by (simp add: Example_defs Query_defs)
  ultimately show ?thesis using Example_GetCellData by simp
qed

theorem Query_failure_keeps_partial_output_witness:
  "Query ExampleTable ([''A''], [''World'']) True
     [Some OtherStruct, Some ExampleStruct, Some OtherStruct] [Some (''Armor'', 3, 4)] =
     Some (False, [Some (''Armor'', 3, 4), Some (''Damage'', 0, 0)]) \<and>
   Structures ExampleTable \<noteq> [] \<and>
   Resolved ExampleTable
     (GetRowIndex ExampleTable [''A''] True, GetColumnIndex ExampleTable [''World''] True)
     [Some OtherStruct, Some ExampleStruct, Some OtherStruct] = [Some (''Damage'', 0, 0)]"
proof -
  have q: "Query ExampleTable ([''A''], [''World'']) True
             [Some OtherStruct, Some ExampleStruct, Some OtherStruct] [Some (''Armor'', 3, 4)] =
           Some (False, [Some (''Armor'', 3, 4), Some (''Damage'', 0, 0)])"
    by (simp add: Example_defs Query_defs)
  have s: "Structures ExampleTable \<noteq> []" by (simp add: Example_defs)
  have i: "GetRowIndex ExampleTable [''A''] True \<noteq> InvalidIndex"
    "GetColumnIndex ExampleTable [''World''] True \<noteq> InvalidIndex"
    using Example_indices by (simp_all add: InvalidIndex_def)
  show ?thesis
    using q s i Query_failure_keeps_partial_output
      [of ExampleTable "([''A''], [''World''])" True
          "[Some OtherStruct, Some ExampleStruct, Some OtherStruct]"
          "[Some (''Armor'', 3, 4)]" "[Some (''Armor'', 3, 4), Some (''Damage'', 0, 0)]"]
    by simp
qed

section \<open>Properties of the datablock\<close>

lemma NewHandle_recycled:
  assumes buf: "Datablock b = Some buf"
    and full: "\<not> NextHandle b < Capacity b"
    and free: "FreeHandles b \<noteq> []"
    and ok: "hd (FreeHandles b) \<noteq> InvalidHandle" "unat (hd (FreeHandles b)) < length buf"
  shows "\<exists>b2. Datablock_NewHandle b = Some (hd (FreeHandles b), b2) \<and>
           ReadRecord b2 (Some (unat (hd (FreeHandles b)))) = Some (DefaultRecord (Struct b)) \<and>
           (FreeHandles b = [hd (FreeHandles b)] \<longrightarrow> FreeHandles b2 = [])"
proof -
  obtain rest where pop: "HeapPop (FreeHandles b) = Some (hd (FreeHandles b), rest)"
    and rest: "FreeHandles b = [hd (FreeHandles b)] \<longrightarrow> rest = []"
    using free by (cases "FreeHandles b") (auto simp: HeapPop_def)
  show ?thesis
    using buf full free ok pop rest
    by (simp add: Datablock_NewHandle_def GetMemoryBlock_def ClearScriptStruct_def ReadRecord_def)
qed

text \<open>
  C7, as stated, fails: RecycleHandle only adds the handle to the free list. After the owner
  of handle 0 wrote 7 into its record and released the handle, the record still holds 7, not
  the default 0.
\<close>

theorem RecycleHandle_resets_counterexample:
  "WriteRecord ExampleBlock (Some 0) 7 = Some (ExampleBlock\<lparr>Datablock := Some [7]\<rparr>) \<and>
   RecycleHandle (ExampleBlock\<lparr>Datablock := Some [7]\<rparr>) 0 =
     Some (ExampleBlock\<lparr>Datablock := Some [7], FreeHandles := [0]\<rparr>) \<and>
   ReadRecord (ExampleBlock\<lparr>Datablock := Some [7], FreeHandles := [0]\<rparr>) (Some 0) = Some 7 \<and>
   DefaultRecord (Struct ExampleBlock) = 0"
  by (simp add: WriteRecord_def RecycleHandle_def ReadRecord_def ExampleBlock_def
      ExampleStruct_def InvalidHandle_def)

text \<open>
  C7, amended. RecycleHandle adds the handle to the free list and leaves the buffer as it is;
  the record is reset to the default of the structure by NewHandle, when the handle is handed
  out again, so reuse never observes stale data. For a block whose unopened handles are used
  up and whose free handles are valid, releasing a valid handle h and then acquiring returns
  a handle of the free list whose record equals the default; when no other handle was free
  (the block was at full capacity) that handle is h itself.
\<close>

theorem RecycleHandle_then_NewHandle:
  assumes buf: "Datablock b = Some buf"
    and full: "\<not> NextHandle b < Capacity b"
    and free: "\<forall>f \<in> set (FreeHandles b). f \<noteq> InvalidHandle \<and> unat f < length buf"
    and h: "h \<noteq> InvalidHandle" "unat h < length buf"
  shows "\<exists>b1 h' b2.
           RecycleHandle b h = Some b1 \<and>
           FreeHandles b1 = FreeHandles b @ [h] \<and>
           Datablock b1 = Datablock b \<and>
           Datablock_NewHandle b1 = Some (h', b2) \<and>
           h' \<in> set (FreeHandles b1) \<and>
           (FreeHandles b = [] \<longrightarrow> h' = h \<and> FreeHandles b2 = []) \<and>
           ReadRecord b2 (Some (unat h')) = Some (DefaultRecord (Struct b))"
proof -
  let ?b1 = "b\<lparr>FreeHandles := FreeHandles b @ [h]\<rparr>"
  let ?h' = "hd (FreeHandles ?b1)"
  have r: "RecycleHandle b h = Some ?b1" using h by (simp add: RecycleHandle_def)
  have mem: "?h' \<in> set (FreeHandles ?b1)" by (cases "FreeHandles b") simp_all
  then have ok: "?h' \<noteq> InvalidHandle" "unat ?h' < length buf"
    using free h by auto
  have "\<exists>b2. Datablock_NewHandle ?b1 = Some (?h', b2) \<and>
           ReadRecord b2 (Some (unat ?h')) = Some (DefaultRecord (Struct ?b1)) \<and>
           (FreeHandles ?b1 = [?h'] \<longrightarrow> FreeHandles b2 = [])"
    using buf full ok by (intro NewHandle_recycled) simp_all
  then obtain b2 where b2: "Datablock_NewHandle ?b1 = Some (?h', b2)"
    "ReadRecord b2 (Some (unat ?h')) = Some (DefaultRecord (Struct b))"
    "FreeHandles ?b1 = [?h'] \<longrightarrow> FreeHandles b2 = []"
    by auto
  show ?thesis
    using r mem b2 by (intro exI[of _ ?b1] exI[of _ ?h'] exI[of _ b2]) auto
qed

theorem RecycleHandle_then_NewHandle_witness:
  "\<exists>b1 h' b2.
     RecycleHandle (ExampleBlock\<lparr>Datablock := Some [7]\<rparr>) 0 = Some b1 \<and>
     FreeHandles b1 = [0] \<and>
     Datablock b1 = Some [7] \<and>
     Datablock_NewHandle b1 = Some (h', b2) \<and>
     h' = 0 \<and>
     ReadRecord b2 (Some (unat h')) = Some 0"
proof -
  let ?b = "ExampleBlock\<lparr>Datablock := Some [7]\<rparr>"
  have buf: "Datablock ?b = Some [7]" by simp
  have full: "\<not> NextHandle ?b < Capacity ?b" by (simp add: ExampleBlock_def)
  have free: "\<forall>f \<in> set (FreeHandles ?b). f \<noteq> InvalidHandle \<and> unat f < length [7::nat]"
    by (simp add: ExampleBlock_def)
  have h: "(0::DatablockHandle) \<noteq> InvalidHandle" "unat (0::DatablockHandle) < length [7::nat]"
    by (simp_all add: InvalidHandle_def)
  show ?thesis
    using RecycleHandle_then_NewHandle [OF buf full free h]
    by (fastforce simp: ExampleBlock_def ExampleStruct_def)
qed

section \<open>Properties of the page\<close>

lemmas Page_defs =
  FAffinityTablePage_new_def AllocateBlocks_def MaxDatablockCapacity_def FStructDatablock_new_def
  Alloc_def Page_AddRow_def AppendHandles_def Page_NewHandle_def FindAvailableHandle_def
  FindAvailableHandle_scan.simps Datablock_NewHandle_def MakeHandle_def InvalidHandle_def
  InvalidDataHandle_def

text \<open>
  C4. The page that the constructor builds in fixed mode for one row and one column has its
  single handle in use. Asking it for a new handle stops at no check: the final check of
  NewHandle compares the 64-bit handle with the 32-bit invalid handle of the datablock, which
  the invalid handle of the page never equals, and the invalid handle is returned.
\<close>

theorem Page_NewHandle_fixed_exhausted:
  "FAffinityTablePage_new ExampleStruct 1 1 True = Some (ExamplePage True) \<and>
   Page_NewHandle (ExamplePage True) = Some (InvalidDataHandle, ExamplePage True) \<and>
   InvalidDataHandle \<noteq> ucast InvalidHandle"
  by (simp add: Example_defs Page_defs)

section \<open>Properties of AddRow and AddColumn\<close>

lemma update_new: "\<not> Contains m k \<Longrightarrow> AList.update k v m = m @ [(k, v)]"
  by (induction m) (auto simp: Contains_def)

lemma IndexFrom_Cons: "IndexFrom n (t # ts) = (t, n) # IndexFrom (n + 1) ts"
proof -
  have "map (\<lambda>i. n + of_nat i) [0..<length (t # ts)] = n # map (\<lambda>i. (n + 1) + of_nat i) [0..<length ts]"
    by (simp add: upt_conv_Cons map_Suc_upt[symmetric] add.assoc add.commute del: upt_Suc)
  then show ?thesis by (simp add: IndexFrom_def)
qed

lemma NewTags_unfold:
  "NewTags m t = (if IsValid t \<and> \<not> Contains m t then t # NewTags m (RequestDirectParent t) else [])"
  by (cases "t = []") (simp_all add: NewTags_def AncestorChain_Cons IsValid_def RequestDirectParent_def)

lemma NewTags_update:
  assumes "t \<noteq> []"
  shows "NewTags (m @ [(t, v)]) (RequestDirectParent t) = NewTags m (RequestDirectParent t)"
proof -
  have "a \<noteq> t" if "a \<in> set (AncestorChain (butlast t))" for a
  proof -
    from that have "length a \<le> length (butlast t)" by (rule AncestorChain_length)
    with assms show ?thesis by (cases t rule: rev_cases) auto
  qed
  then have "\<forall>a \<in> set (AncestorChain (butlast t)). Contains (m @ [(t, v)]) a = Contains m a"
    by (auto simp: Contains_def map_of_append split: option.splits)
  then show ?thesis
    unfolding NewTags_def RequestDirectParent_def
    by (intro takeWhile_cong) auto
qed

lemma AddRow_effect:
  "AddRow T t = Some (r, T') \<Longrightarrow>
     r = (NewTags (Rows T) t \<noteq> []) \<and>
     Rows T' = Rows T @ IndexFrom (NextRowIndex T) (NewTags (Rows T) t) \<and>
     NextRowIndex T' = NextRowIndex T + of_nat (length (NewTags (Rows T) t)) \<and>
     Columns T' = Columns T \<and> NextColumnIndex T' = NextColumnIndex T"
proof (induction T t arbitrary: r T' rule: AddRow.induct)
  case (1 T InTag)
  show ?case
  proof (cases "IsValid InTag \<and> \<not> Contains (Rows T) InTag")
    case False
    with "1.prems" have "r = False" "T' = T" by (auto simp: AddRow.simps)
    moreover have "NewTags (Rows T) InTag = []" using False by (subst NewTags_unfold) auto
    ultimately show ?thesis by (simp add: IndexFrom_def)
  next
    case True
    then obtain ps where ps: "those (map Page_AddRow (Pages T)) = Some ps"
      using "1.prems" by (subst (asm) AddRow.simps) (auto split: option.splits)
    let ?T1 = "T\<lparr>Pages := ps, Rows := AList.update InTag (NextRowIndex T) (Rows T),
                  NextRowIndex := NextRowIndex T + 1\<rparr>"
    from True ps "1.prems" obtain r1 where rec: "AddRow ?T1 (RequestDirectParent InTag) = Some (r1, T')"
      and r: "r = True"
      by (subst (asm) AddRow.simps) (auto split: option.splits)
    have upd: "Rows ?T1 = Rows T @ [(InTag, NextRowIndex T)]"
      using True by (simp add: update_new)
    have nt: "NewTags (Rows ?T1) (RequestDirectParent InTag) = NewTags (Rows T) (RequestDirectParent InTag)"
      unfolding upd using True by (intro NewTags_update) (simp add: IsValid_def)
    have unf: "NewTags (Rows T) InTag = InTag # NewTags (Rows T) (RequestDirectParent InTag)"
      using True by (subst NewTags_unfold) simp
    from "1.IH"[OF True ps rec] show ?thesis
      unfolding nt unf using r upd by (simp add: IndexFrom_Cons add.assoc)
  qed
qed

lemma Contains_iff: "Contains m k \<longleftrightarrow> k \<in> fst ` set m"
  by (simp add: Contains_def map_of_eq_None_iff)

lemma Contains_append: "Contains (m @ m') k \<longleftrightarrow> Contains m k \<or> Contains m' k"
  by (auto simp: Contains_iff)

lemma map_of_append_old: "Contains m k \<Longrightarrow> map_of (m @ m') k = map_of m k"
  by (auto simp: Contains_def map_add_def split: option.splits)

lemma IndexFrom_keys: "fst ` set (IndexFrom n ts) = set ts"
proof -
  have "map fst (IndexFrom n ts) = ts" by (simp add: IndexFrom_def)
  then have "set (map fst (IndexFrom n ts)) = set ts" by simp
  then show ?thesis by simp
qed

lemma HierarchyComplete_iff:
  "HierarchyComplete m \<longleftrightarrow> (\<forall>k. Contains m k \<longrightarrow> (\<forall>a \<in> set (AncestorChain k). Contains m a))"
  by (auto simp: HierarchyComplete_def list_all_iff Contains_iff)

lemma AncestorChain_trans:
  "a \<in> set (AncestorChain t) \<Longrightarrow> set (AncestorChain a) \<subseteq> set (AncestorChain t)"
proof (induction t rule: length_induct)
  case (1 t)
  show ?case
  proof (cases "t = []")
    case True
    with 1 show ?thesis by simp
  next
    case False
    with "1.prems" have "a = t \<or> a \<in> set (AncestorChain (butlast t))"
      by (simp add: AncestorChain_Cons)
    then show ?thesis
    proof
      assume "a = t" then show ?thesis by simp
    next
      assume a: "a \<in> set (AncestorChain (butlast t))"
      moreover have "length (butlast t) < length t" using False by simp
      ultimately have "set (AncestorChain a) \<subseteq> set (AncestorChain (butlast t))"
        using "1.IH" by blast
      then show ?thesis using False by (auto simp: AncestorChain_Cons)
    qed
  qed
qed

lemma NewTags_subset: "set (NewTags m t) \<subseteq> set (AncestorChain t)"
  unfolding NewTags_def by (rule set_takeWhileD[THEN conjunct1, THEN subsetI[rotated]]) auto

lemma chain_covered:
  assumes "HierarchyComplete m"
  shows "set (AncestorChain t) \<subseteq> set (NewTags m t) \<union> {a. Contains m a}"
proof (induction t rule: length_induct)
  case (1 t)
  show ?case
  proof (cases "t = []")
    case True
    then show ?thesis by simp
  next
    case False
    show ?thesis
    proof (cases "Contains m t")
      case True
      with assms show ?thesis by (auto simp: HierarchyComplete_iff)
    next
      case c: False
      have "length (butlast t) < length t" using False by simp
      then have "set (AncestorChain (butlast t)) \<subseteq> set (NewTags m (butlast t)) \<union> {a. Contains m a}"
        using "1.IH" by blast
      moreover have "NewTags m t = t # NewTags m (butlast t)"
        using False c by (subst NewTags_unfold) (simp add: IsValid_def RequestDirectParent_def)
      ultimately show ?thesis using False by (auto simp: AncestorChain_Cons)
    qed
  qed
qed

lemma AddRow_noop:
  "\<not> IsValid t \<or> Contains (Rows T) t \<Longrightarrow> AddRow T t = Some (False, T)"
  by (auto simp: AddRow.simps)

lemma AddRow_new:
  assumes new: "IsValid t" "\<not> Contains (Rows T) t"
    and run: "AddRow T t = Some (r, T')"
  shows "r = True"
    and "map_of (Rows T') t = Some (NextRowIndex T)"
    and "\<forall>k. Contains (Rows T) k \<longrightarrow> map_of (Rows T') k = map_of (Rows T) k"
    and "IsValid (RequestDirectParent t) \<longrightarrow> Contains (Rows T') (RequestDirectParent t)"
    and "HierarchyComplete (Rows T) \<longrightarrow>
           list_all (Contains (Rows T')) (AncestorChain t) \<and> HierarchyComplete (Rows T')"
proof -
  let ?new = "NewTags (Rows T) t"
  let ?n = "NextRowIndex T"
  let ?p = "RequestDirectParent t"
  from AddRow_effect[OF run] have r: "r = (?new \<noteq> [])"
    and rows: "Rows T' = Rows T @ IndexFrom ?n ?new" by simp_all
  have unf: "?new = t # NewTags (Rows T) ?p" using new by (subst NewTags_unfold) simp
  have keys: "\<And>k. Contains (Rows T') k \<longleftrightarrow> Contains (Rows T) k \<or> k \<in> set ?new"
    unfolding rows Contains_append by (simp add: Contains_iff IndexFrom_keys)
  show "r = True" using r unf by simp
  show "map_of (Rows T') t = Some ?n"
    using new unfolding rows unf IndexFrom_Cons
    by (simp add: map_of_append map_add_def Contains_def)
  show "\<forall>k. Contains (Rows T) k \<longrightarrow> map_of (Rows T') k = map_of (Rows T) k"
    unfolding rows by (auto simp: Contains_def map_add_def split: option.splits)
  show "IsValid ?p \<longrightarrow> Contains (Rows T') ?p"
  proof
    assume v: "IsValid ?p"
    show "Contains (Rows T') ?p"
    proof (cases "Contains (Rows T) ?p")
      case True
      then show ?thesis by (simp add: keys)
    next
      case False
      with v have "NewTags (Rows T) ?p = ?p # NewTags (Rows T) (RequestDirectParent ?p)"
        by (subst NewTags_unfold) simp
      then show ?thesis by (simp add: keys unf)
    qed
  qed
  show "HierarchyComplete (Rows T) \<longrightarrow>
           list_all (Contains (Rows T')) (AncestorChain t) \<and> HierarchyComplete (Rows T')"
  proof
    assume hc: "HierarchyComplete (Rows T)"
    have cov: "\<And>s. set (AncestorChain s) \<subseteq> set (NewTags (Rows T) s) \<union> {a. Contains (Rows T) a}"
      using chain_covered[OF hc] .
    have 1: "list_all (Contains (Rows T')) (AncestorChain t)"
      using cov[of t] by (auto simp: list_all_iff keys)
    have 2: "HierarchyComplete (Rows T')"
      unfolding HierarchyComplete_iff
    proof (intro allI impI ballI)
      fix k a assume k: "Contains (Rows T') k" and a: "a \<in> set (AncestorChain k)"
      from k have "Contains (Rows T) k \<or> k \<in> set ?new" by (simp add: keys)
      then show "Contains (Rows T') a"
      proof
        assume "Contains (Rows T) k"
        with hc a have "Contains (Rows T) a" by (auto simp: HierarchyComplete_iff)
        then show ?thesis by (simp add: keys)
      next
        assume "k \<in> set ?new"
        then have "k \<in> set (AncestorChain t)" using NewTags_subset by blast
        then have "a \<in> set (AncestorChain t)" using a AncestorChain_trans by blast
        then show ?thesis using 1 by (simp add: list_all_iff)
      qed
    qed
    from 1 2 show "list_all (Contains (Rows T')) (AncestorChain t) \<and> HierarchyComplete (Rows T')" ..
  qed
qed

section \<open>The page never stops at a check while it grows\<close>

lemma HeapSiftDown_set: "set (HeapSiftDown xs i) = set xs"
proof (induction xs i rule: HeapSiftDown.induct)
  case (1 Heap Index)
  show ?case
  proof (cases "Index * 2 + 1 < length Heap")
    case False
    then show ?thesis by (subst HeapSiftDown.simps) simp
  next
    case True
    define M where "M = (if Index * 2 + 1 + 1 < length Heap
                then (if Heap ! (Index * 2 + 1) < Heap ! (Index * 2 + 1 + 1)
                      then Index * 2 + 1 else Index * 2 + 1 + 1)
                else Index * 2 + 1)"
    have M: "M < length Heap" "Index < length Heap" using True by (auto simp: M_def)
    have unf: "HeapSiftDown Heap Index =
                 (if \<not> Heap ! M < Heap ! Index then Heap
                  else HeapSiftDown (Heap[Index := Heap ! M, M := Heap ! Index]) M)"
      unfolding M_def using True by (subst HeapSiftDown.simps) (simp add: Let_def)
    show ?thesis
    proof (cases "Heap ! M < Heap ! Index")
      case False
      then show ?thesis by (simp add: unf)
    next
      case lt: True
      have "set (HeapSiftDown (Heap[Index := Heap ! M, M := Heap ! Index]) M) =
                     set (Heap[Index := Heap ! M, M := Heap ! Index])"
        using "1.IH"[OF True refl refl, of M] lt by (simp add: M_def)
      moreover have "set (Heap[Index := Heap ! M, M := Heap ! Index]) = set Heap"
        using M by (simp add: set_swap)
      ultimately show ?thesis using lt by (simp add: unf)
    qed
  qed
qed

lemma HeapPop_Some:
  "xs \<noteq> [] \<Longrightarrow> \<exists>rest. HeapPop xs = Some (hd xs, rest) \<and> set rest \<subseteq> set xs"
proof (cases xs)
  case Nil
  assume "xs \<noteq> []" with Nil show ?thesis by simp
next
  case (Cons x r)
  have "set (last r # butlast r) = set r" if "r \<noteq> []"
    using that by (cases r rule: rev_cases) auto
  then show ?thesis using Cons by (auto simp: HeapPop_def HeapSiftDown_set)
qed

lemma less_not_InvalidHandle: "(x::32 word) < y \<Longrightarrow> x \<noteq> InvalidHandle"
  using unsigned_less[of y, where 'a=nat] by (auto simp: InvalidHandle_def word_less_nat_alt)

lemma unat_of_nat_le: "unat (of_nat n :: 32 word) \<le> n"
  by (simp add: unat_of_nat)

lemma MakeHandle_low:
  "(ucast (push_bit 32 (ucast (i :: 32 word) :: 64 word) OR (ucast (h :: 32 word) :: 64 word)) :: 32 word) = h"
  by (rule bit_word_eqI) (auto simp: bit_simps)

lemma MakeHandle_valid:
  assumes "MakeHandle p i h = Some H"
  shows "H \<noteq> InvalidDataHandle \<and> H \<noteq> ucast InvalidHandle"
proof -
  from assms have h: "h \<noteq> InvalidHandle" and H: "H = push_bit 32 (ucast i) OR ucast h"
    by (auto simp: MakeHandle_def split: if_splits)
  have low: "(ucast H :: 32 word) = h" unfolding H by (rule MakeHandle_low)
  have "(ucast InvalidDataHandle :: 32 word) = InvalidHandle"
    by (simp add: InvalidDataHandle_def InvalidHandle_def)
  moreover have "(ucast (ucast InvalidHandle :: 64 word) :: 32 word) = InvalidHandle"
    by (simp add: InvalidHandle_def)
  ultimately show ?thesis using low h by metis
qed

lemma Datablock_NewHandle_OK:
  assumes "BlockOK b"
  shows "\<exists>h b'. Datablock_NewHandle b = Some (h, b') \<and> BlockOK b' \<and>
           (NextHandle b < Capacity b \<longrightarrow> h \<noteq> InvalidHandle) \<and>
           (h = InvalidHandle \<longrightarrow> b' = b)"
proof -
  from assms obtain buf where buf: "Datablock b = Some buf"
    and free: "\<forall>f \<in> set (FreeHandles b). f \<noteq> InvalidHandle \<and> unat f < length buf"
    by (auto simp: BlockOK_def list_all_iff split: option.splits)
  show ?thesis
  proof (cases "NextHandle b < Capacity b")
    case True
    then show ?thesis using buf free less_not_InvalidHandle[OF True]
      by (simp add: Datablock_NewHandle_def BlockOK_def list_all_iff)
  next
    case False
    show ?thesis
    proof (cases "FreeHandles b = []")
      case True
      then show ?thesis using False buf assms by (simp add: Datablock_NewHandle_def)
    next
      case ne: False
      then obtain rest where pop: "HeapPop (FreeHandles b) = Some (hd (FreeHandles b), rest)"
        and rest: "set rest \<subseteq> set (FreeHandles b)"
        using HeapPop_Some by blast
      have hd: "hd (FreeHandles b) \<noteq> InvalidHandle" "unat (hd (FreeHandles b)) < length buf"
        using free ne by auto
      show ?thesis
        using False ne buf pop rest hd free
        by (auto simp: Datablock_NewHandle_def GetMemoryBlock_def ClearScriptStruct_def
            BlockOK_def list_all_iff)
    qed
  qed
qed

lemma list_all_update: "list_all P xs \<Longrightarrow> P b \<Longrightarrow> list_all P (xs[i := b])"
  unfolding list_all_iff using set_update_subset_insert[of xs i b] by auto

lemma scan_OK:
  assumes "list_all BlockOK (Datablocks p)"
  shows "\<exists>h p'. FindAvailableHandle_scan p i = Some (h, p') \<and>
           list_all BlockOK (Datablocks p') \<and> SameGrid p p' \<and>
           length (Datablocks p') = length (Datablocks p) \<and>
           (h = InvalidDataHandle \<and> CurrentDatablock p' = CurrentDatablock p \<or>
            h \<noteq> InvalidDataHandle \<and> h \<noteq> ucast InvalidHandle \<and>
            unat (CurrentDatablock p') < length (Datablocks p')) \<and>
           ((\<exists>j. i \<le> j \<and> j < length (Datablocks p) \<and>
                 NextHandle (Datablocks p ! j) < Capacity (Datablocks p ! j)) \<longrightarrow>
            h \<noteq> InvalidDataHandle)"
  using assms
proof (induction p i rule: FindAvailableHandle_scan.induct)
  case (1 p i)
  show ?case
  proof (cases "i < length (Datablocks p)")
    case False
    then show ?thesis using "1.prems"
      by (subst FindAvailableHandle_scan.simps) (simp add: SameGrid_def)
  next
    case True
    then have "BlockOK (Datablocks p ! i)" using "1.prems" by (simp add: list_all_length)
    from Datablock_NewHandle_OK[OF this] obtain h b where
      nh: "Datablock_NewHandle (Datablocks p ! i) = Some (h, b)" and b: "BlockOK b"
      and valid: "NextHandle (Datablocks p ! i) < Capacity (Datablocks p ! i) \<longrightarrow> h \<noteq> InvalidHandle"
      and same: "h = InvalidHandle \<longrightarrow> b = Datablocks p ! i"
      by blast
    have oks: "list_all BlockOK ((Datablocks p)[i := b])"
      using "1.prems" b by (rule list_all_update)
    show ?thesis
    proof (cases "h = InvalidHandle")
      case inv: True
      let ?p1 = "p\<lparr>Datablocks := (Datablocks p)[i := b]\<rparr>"
      have p1: "?p1 = p" using same inv by simp
      have unf: "FindAvailableHandle_scan p i = FindAvailableHandle_scan ?p1 (i + 1)"
        using True nh inv by (subst FindAvailableHandle_scan.simps) simp
      have ninv: "\<not> h \<noteq> InvalidHandle" using inv by simp
      have "list_all BlockOK (Datablocks ?p1)" using oks by simp
      from "1.IH"[OF True nh refl ninv this]
      obtain H p' where r: "FindAvailableHandle_scan ?p1 (i + 1) = Some (H, p')"
        "list_all BlockOK (Datablocks p')" "SameGrid ?p1 p'"
        "length (Datablocks p') = length (Datablocks ?p1)"
        "H = InvalidDataHandle \<and> CurrentDatablock p' = CurrentDatablock ?p1 \<or>
            H \<noteq> InvalidDataHandle \<and> H \<noteq> ucast InvalidHandle \<and>
            unat (CurrentDatablock p') < length (Datablocks p')"
        "(\<exists>j. i + 1 \<le> j \<and> j < length (Datablocks ?p1) \<and>
                 NextHandle (Datablocks ?p1 ! j) < Capacity (Datablocks ?p1 ! j)) \<longrightarrow>
            H \<noteq> InvalidDataHandle"
        by blast
      have "(\<exists>j. i \<le> j \<and> j < length (Datablocks p) \<and>
                 NextHandle (Datablocks p ! j) < Capacity (Datablocks p ! j)) \<longrightarrow>
            H \<noteq> InvalidDataHandle"
      proof
        assume "\<exists>j. i \<le> j \<and> j < length (Datablocks p) \<and>
                 NextHandle (Datablocks p ! j) < Capacity (Datablocks p ! j)"
        then obtain j where j: "i \<le> j" "j < length (Datablocks p)"
          "NextHandle (Datablocks p ! j) < Capacity (Datablocks p ! j)" by blast
        have "j \<noteq> i" using j valid inv by auto
        then have "i + 1 \<le> j" using j by simp
        then show "H \<noteq> InvalidDataHandle" using r(6) j unfolding p1 by blast
      qed
      then show ?thesis using r unfolding unf p1 by auto
    next
      case ok: False
      let ?p2 = "p\<lparr>Datablocks := (Datablocks p)[i := b], CurrentDatablock := of_nat i\<rparr>"
      have idx: "unat (of_nat i :: 32 word) < length (Datablocks p)"
        using True unat_of_nat_le[of i] by simp
      then obtain H where mk: "MakeHandle ?p2 (CurrentDatablock ?p2) h = Some H"
        using ok by (simp add: MakeHandle_def)
      have unf: "FindAvailableHandle_scan p i = Some (H, ?p2)"
        using True nh ok mk by (subst FindAvailableHandle_scan.simps) (simp add: Let_def)
      show ?thesis
        unfolding unf using MakeHandle_valid[OF mk] oks idx by (simp add: SameGrid_def)
    qed
  qed
qed

lemma SameGrid_refl [simp]: "SameGrid p p"
  by (simp add: SameGrid_def)

lemma SameGrid_trans: "SameGrid p q \<Longrightarrow> SameGrid q r \<Longrightarrow> SameGrid p r"
  by (simp add: SameGrid_def)

lemma FindAvailableHandle_OK:
  assumes "PageOK p"
  shows "\<exists>h p'. FindAvailableHandle p = Some (h, p') \<and> PageOK p' \<and> SameGrid p p' \<and>
           (h = InvalidDataHandle \<or> h \<noteq> InvalidDataHandle \<and> h \<noteq> ucast InvalidHandle) \<and>
           ((\<exists>j. j < length (Datablocks p) \<and>
                 NextHandle (Datablocks p ! j) < Capacity (Datablocks p ! j)) \<longrightarrow>
            h \<noteq> InvalidDataHandle)"
proof (cases "Datablocks p = []")
  case True
  then show ?thesis using assms by (simp add: FindAvailableHandle_def SameGrid_def)
next
  case False
  let ?c = "unat (CurrentDatablock p)"
  from assms False have c: "?c < length (Datablocks p)" and oks: "list_all BlockOK (Datablocks p)"
    and sz: "StructureSize (PageStruct p) \<noteq> 0"
    by (auto simp: PageOK_def)
  then have "BlockOK (Datablocks p ! ?c)" by (simp add: list_all_length)
  from Datablock_NewHandle_OK[OF this] obtain h b where
    nh: "Datablock_NewHandle (Datablocks p ! ?c) = Some (h, b)" and b: "BlockOK b"
    and same: "h = InvalidHandle \<longrightarrow> b = Datablocks p ! ?c"
    by blast
  let ?p1 = "p\<lparr>Datablocks := (Datablocks p)[?c := b]\<rparr>"
  have oks1: "list_all BlockOK (Datablocks ?p1)"
    using oks b by (simp add: list_all_update)
  show ?thesis
  proof (cases "h = InvalidHandle")
    case inv: True
    have p1: "?p1 = p" using same inv by simp
    have unf: "FindAvailableHandle p = FindAvailableHandle_scan p 0"
      using False c nh inv p1 by (simp add: FindAvailableHandle_def)
    from scan_OK[OF oks, of 0] obtain H p' where
      r1: "FindAvailableHandle_scan p 0 = Some (H, p')"
      and r2:  "list_all BlockOK (Datablocks p')" and r3: "SameGrid p p'"
      and r4:  "length (Datablocks p') = length (Datablocks p)"
      and r5:  "H = InvalidDataHandle \<and> CurrentDatablock p' = CurrentDatablock p \<or>
            H \<noteq> InvalidDataHandle \<and> H \<noteq> ucast InvalidHandle \<and>
            unat (CurrentDatablock p') < length (Datablocks p')"
      and r6:  "(\<exists>j. 0 \<le> j \<and> j < length (Datablocks p) \<and>
                 NextHandle (Datablocks p ! j) < Capacity (Datablocks p ! j)) \<longrightarrow>
            H \<noteq> InvalidDataHandle"
      by (elim exE conjE) (rule that)
    have "unat (CurrentDatablock p') < length (Datablocks p')"
      using r5 r4 c by auto
    then have ok: "PageOK p'"
      using r2 r3 sz by (simp add: PageOK_def SameGrid_def)
    have h1: "H = InvalidDataHandle \<or> H \<noteq> InvalidDataHandle \<and> H \<noteq> ucast InvalidHandle"
      using r5 by blast
    have h2: "(\<exists>j. j < length (Datablocks p) \<and>
                 NextHandle (Datablocks p ! j) < Capacity (Datablocks p ! j)) \<longrightarrow>
            H \<noteq> InvalidDataHandle"
      using r6 by simp
    show ?thesis
      unfolding unf r1 using ok r3 h1 h2 by simp
  next
    case ok: False
    obtain H where mk: "MakeHandle ?p1 (CurrentDatablock ?p1) h = Some H"
      using ok c by (simp add: MakeHandle_def)
    have unf: "FindAvailableHandle p = Some (H, ?p1)"
      using False c nh ok mk by (simp add: FindAvailableHandle_def)
    have "PageOK ?p1" using oks1 c sz by (simp add: PageOK_def)
    then show ?thesis unfolding unf using MakeHandle_valid[OF mk] by (simp add: SameGrid_def)
  qed
qed

lemma AllocateBlocks_OK:
  assumes "PageOK p"
  shows "\<exists>p' b. AllocateBlocks p MaxDatablockCapacity = Some p' \<and> PageOK p' \<and> SameGrid p p' \<and>
           Datablocks p' = Datablocks p @ [b] \<and> NextHandle b < Capacity b"
proof -
  let ?b = "\<lparr>Struct = PageStruct p, Datablock = Some (replicate 512 (DefaultRecord (PageStruct p))),
            Capacity = 512, StructSize = StructureSize (PageStruct p), NextHandle = 0,
            FreeHandles = []\<rparr>"
  have sz: "StructureSize (PageStruct p) \<noteq> 0" using assms by (simp add: PageOK_def)
  have new: "FStructDatablock_new (PageStruct p) MaxDatablockCapacity True = Some ?b"
    using sz by (simp add: FStructDatablock_new_def MaxDatablockCapacity_def Alloc_def)
  have one: "unat (MaxDatablockCapacity div MaxDatablockCapacity) = Suc 0"
    by (simp add: MaxDatablockCapacity_def)
  let ?p' = "p\<lparr>CurrentDatablock := of_nat (length (Datablocks p)), Datablocks := Datablocks p @ [?b]\<rparr>"
  have "AllocateBlocks p MaxDatablockCapacity = Some ?p'"
    unfolding AllocateBlocks_def Let_def
    by (simp add: one new) (simp add: MaxDatablockCapacity_def)
  moreover have "BlockOK ?b" by (simp add: BlockOK_def)
  then have "PageOK ?p'"
    using assms unat_of_nat_le[of "length (Datablocks p)"]
    by (auto simp: PageOK_def less_Suc_eq_le)
  ultimately show ?thesis by (intro exI[of _ ?p'] exI[of _ ?b]) (simp add: SameGrid_def)
qed

lemma Page_NewHandle_OK:
  assumes "PageOK p"
  shows "\<exists>h p'. Page_NewHandle p = Some (h, p') \<and> PageOK p' \<and> SameGrid p p' \<and>
           (\<not> FixedMode p \<longrightarrow> h \<noteq> InvalidDataHandle)"
proof -
  from FindAvailableHandle_OK[OF assms] obtain h p1 where
    f: "FindAvailableHandle p = Some (h, p1)" and ok1: "PageOK p1" and g1: "SameGrid p p1"
    and h: "h = InvalidDataHandle \<or> h \<noteq> InvalidDataHandle \<and> h \<noteq> ucast InvalidHandle"
    by blast
  have ne: "InvalidDataHandle \<noteq> ucast InvalidHandle"
    by (simp add: InvalidDataHandle_def InvalidHandle_def)
  show ?thesis
  proof (cases "h = InvalidDataHandle \<and> \<not> FixedMode p1")
    case False
    then have "Page_NewHandle p = Some (h, p1)"
      using f h ne by (auto simp: Page_NewHandle_def)
    then show ?thesis using ok1 g1 False by (auto simp: SameGrid_def)
  next
    case True
    from AllocateBlocks_OK[OF ok1] obtain p3 b where
      a: "AllocateBlocks p1 MaxDatablockCapacity = Some p3" and ok3: "PageOK p3"
      and g3: "SameGrid p1 p3" and ds: "Datablocks p3 = Datablocks p1 @ [b]"
      and free: "NextHandle b < Capacity b"
      by blast
    have "\<exists>j. j < length (Datablocks p3) \<and>
                 NextHandle (Datablocks p3 ! j) < Capacity (Datablocks p3 ! j)"
      using ds free by (intro exI[of _ "length (Datablocks p1)"]) simp
    with FindAvailableHandle_OK[OF ok3] obtain h3 p4 where
      f3: "FindAvailableHandle p3 = Some (h3, p4)" and ok4: "PageOK p4" and g4: "SameGrid p3 p4"
      and h3: "h3 \<noteq> InvalidDataHandle" "h3 \<noteq> ucast InvalidHandle"
      by blast
    have "Page_NewHandle p = Some (h3, p4)"
      using f True a f3 h3 by (simp add: Page_NewHandle_def)
    moreover have "SameGrid p p4" using g1 g3 g4 by (simp add: SameGrid_def)
    ultimately show ?thesis using ok4 h3 by simp
  qed
qed

lemma AppendHandles_count_OK:
  "PageOK p \<Longrightarrow>
     \<exists>r p'. AppendHandles_count p InRow n = Some (r, p') \<and> PageOK p' \<and> SameGrid p p'"
proof (induction n arbitrary: p InRow)
  case 0
  then show ?case by simp
next
  case (Suc n)
  from Page_NewHandle_OK[OF Suc.prems] obtain h p1 where
    n: "Page_NewHandle p = Some (h, p1)" and ok: "PageOK p1" and g: "SameGrid p p1" by blast
  from Suc.IH[OF ok, of "InRow @ [h]"] obtain r p' where
    "AppendHandles_count p1 (InRow @ [h]) n = Some (r, p')" "PageOK p'" "SameGrid p1 p'" by blast
  then show ?case using n g by (auto intro: SameGrid_trans)
qed

lemma AppendHandles_each_OK:
  "PageOK p \<Longrightarrow>
     \<exists>r p'. AppendHandles_each p InRow is = Some (r, p') \<and> PageOK p' \<and> SameGrid p p'"
proof (induction "is" arbitrary: p InRow)
  case Nil
  then show ?case by simp
next
  case (Cons i rest)
  show ?case
  proof (cases "i \<in> DeletedColumns p")
    case True
    then show ?thesis using Cons.IH[OF Cons.prems] by simp
  next
    case False
    from Page_NewHandle_OK[OF Cons.prems] obtain h p1 where
      n: "Page_NewHandle p = Some (h, p1)" and ok: "PageOK p1" and g: "SameGrid p p1" by blast
    from Cons.IH[OF ok, of "InRow @ [h]"] obtain r p' where
      "AppendHandles_each p1 (InRow @ [h]) rest = Some (r, p')" "PageOK p'" "SameGrid p1 p'" by blast
    then show ?thesis using n g False by (auto intro: SameGrid_trans)
  qed
qed

lemma AppendHandles_OK:
  "PageOK p \<Longrightarrow>
     \<exists>r p'. AppendHandles p InRow c = Some (r, p') \<and> PageOK p' \<and> SameGrid p p'"
  unfolding AppendHandles_def Let_def
  using AppendHandles_count_OK AppendHandles_each_OK by (cases "c = 0 \<and> DeletedColumns p = {}") auto

lemma PageOK_grid: "PageOK p \<Longrightarrow> PageOK (p\<lparr>PageRows := rs, PageColumns := c\<rparr>)"
  by (simp add: PageOK_def)

lemma PageOK_rows: "PageOK p \<Longrightarrow> PageOK (p\<lparr>PageRows := rs\<rparr>)"
  by (simp add: PageOK_def)

lemma Page_AddRow_OK:
  "PageOK p \<Longrightarrow> \<exists>p'. Page_AddRow p = Some p' \<and> PageOK p'"
proof -
  assume "PageOK p"
  from AppendHandles_OK[OF this, of "[]" 0] obtain r p1 where
    "AppendHandles p [] 0 = Some (r, p1)" "PageOK p1" by blast
  then show ?thesis by (simp add: Page_AddRow_def PageOK_rows)
qed

lemma Page_AddColumn_rows_OK:
  "PageOK p \<Longrightarrow>
     \<exists>rs' p'. Page_AddColumn_rows p rs = Some (rs', p') \<and> PageOK p'"
proof (induction rs arbitrary: p)
  case Nil
  then show ?case by simp
next
  case (Cons r rs)
  show ?case
  proof (cases r)
    case None
    from Cons.IH[OF Cons.prems] show ?thesis using None by auto
  next
    case (Some row)
    from AppendHandles_OK[OF Cons.prems, of row 1] obtain row1 p1 where
      a: "AppendHandles p row 1 = Some (row1, p1)" and ok: "PageOK p1" by blast
    from Cons.IH[OF ok] show ?thesis using Some a by auto
  qed
qed

lemma Page_AddColumn_OK:
  "PageOK p \<Longrightarrow> \<exists>p'. Page_AddColumn p = Some p' \<and> PageOK p'"
proof -
  assume "PageOK p"
  from Page_AddColumn_rows_OK[OF this, of "PageRows p"] obtain rs p1 where
    "Page_AddColumn_rows p (PageRows p) = Some (rs, p1)" "PageOK p1" by blast
  then show ?thesis by (simp add: Page_AddColumn_def PageOK_grid)
qed

lemma those_map_OK:
  assumes step: "\<And>p. P p \<Longrightarrow> \<exists>p'. f p = Some p' \<and> P p'"
  shows "list_all P ps \<Longrightarrow> \<exists>ps'. those (map f ps) = Some ps' \<and> list_all P ps'"
proof (induction ps)
  case Nil
  then show ?case by simp
next
  case (Cons p ps)
  then obtain p' where p': "f p = Some p'" "P p'" using step by auto
  from Cons obtain ps' where "those (map f ps) = Some ps'" "list_all P ps'" by auto
  with p' show ?case by simp
qed

lemma AddRow_total:
  "list_all PageOK (Pages T) \<Longrightarrow> \<exists>r T'. AddRow T t = Some (r, T') \<and> list_all PageOK (Pages T')"
proof (induction T t rule: AddRow.induct)
  case (1 T InTag)
  show ?case
  proof (cases "IsValid InTag \<and> \<not> Contains (Rows T) InTag")
    case False
    then show ?thesis using "1.prems" by (subst AddRow.simps) auto
  next
    case True
    from those_map_OK[of PageOK Page_AddRow, OF Page_AddRow_OK "1.prems"]
    obtain ps where ps: "those (map Page_AddRow (Pages T)) = Some ps" "list_all PageOK ps"
      by blast
    let ?T1 = "T\<lparr>Pages := ps, Rows := AList.update InTag (NextRowIndex T) (Rows T),
                  NextRowIndex := NextRowIndex T + 1\<rparr>"
    have "list_all PageOK (Pages ?T1)" using ps by simp
    from "1.IH"[OF True ps(1) this] obtain r T' where
      "AddRow ?T1 (RequestDirectParent InTag) = Some (r, T')" "list_all PageOK (Pages T')"
      by blast
    then show ?thesis using True ps by (subst AddRow.simps) auto
  qed
qed

lemma AddColumn_total:
  "list_all PageOK (Pages T) \<Longrightarrow> \<exists>r T'. AddColumn T t = Some (r, T') \<and> list_all PageOK (Pages T')"
proof (induction T t rule: AddColumn.induct)
  case (1 T InTag)
  show ?case
  proof (cases "IsValid InTag \<and> \<not> Contains (Columns T) InTag")
    case False
    then show ?thesis using "1.prems" by (subst AddColumn.simps) auto
  next
    case True
    from those_map_OK[of PageOK Page_AddColumn, OF Page_AddColumn_OK "1.prems"]
    obtain ps where ps: "those (map Page_AddColumn (Pages T)) = Some ps" "list_all PageOK ps"
      by blast
    let ?T1 = "T\<lparr>Pages := ps, Columns := AList.update InTag (NextColumnIndex T) (Columns T),
                  NextColumnIndex := NextColumnIndex T + 1\<rparr>"
    have "list_all PageOK (Pages ?T1)" using ps by simp
    from "1.IH"[OF True ps(1) this] obtain r T' where
      "AddColumn ?T1 (RequestDirectParent InTag) = Some (r, T')" "list_all PageOK (Pages T')"
      by blast
    then show ?thesis using True ps by (subst AddColumn.simps) auto
  qed
qed

lemma AddColumn_effect:
  "AddColumn T t = Some (r, T') \<Longrightarrow>
     r = (NewTags (Columns T) t \<noteq> []) \<and>
     Columns T' = Columns T @ IndexFrom (NextColumnIndex T) (NewTags (Columns T) t) \<and>
     NextColumnIndex T' = NextColumnIndex T + of_nat (length (NewTags (Columns T) t)) \<and>
     Rows T' = Rows T \<and> NextRowIndex T' = NextRowIndex T"
proof (induction T t arbitrary: r T' rule: AddColumn.induct)
  case (1 T InTag)
  show ?case
  proof (cases "IsValid InTag \<and> \<not> Contains (Columns T) InTag")
    case False
    with "1.prems" have "r = False" "T' = T" by (auto simp: AddColumn.simps)
    moreover have "NewTags (Columns T) InTag = []" using False by (subst NewTags_unfold) auto
    ultimately show ?thesis by (simp add: IndexFrom_def)
  next
    case True
    then obtain ps where ps: "those (map Page_AddColumn (Pages T)) = Some ps"
      using "1.prems" by (subst (asm) AddColumn.simps) (auto split: option.splits)
    let ?T1 = "T\<lparr>Pages := ps, Columns := AList.update InTag (NextColumnIndex T) (Columns T),
                  NextColumnIndex := NextColumnIndex T + 1\<rparr>"
    from True ps "1.prems" obtain r1 where rec: "AddColumn ?T1 (RequestDirectParent InTag) = Some (r1, T')"
      and r: "r = True"
      by (subst (asm) AddColumn.simps) (auto split: option.splits)
    have upd: "Columns ?T1 = Columns T @ [(InTag, NextColumnIndex T)]"
      using True by (simp add: update_new)
    have nt: "NewTags (Columns ?T1) (RequestDirectParent InTag) = NewTags (Columns T) (RequestDirectParent InTag)"
      unfolding upd using True by (intro NewTags_update) (simp add: IsValid_def)
    have unf: "NewTags (Columns T) InTag = InTag # NewTags (Columns T) (RequestDirectParent InTag)"
      using True by (subst NewTags_unfold) simp
    from "1.IH"[OF True ps rec] show ?thesis
      unfolding nt unf using r upd by (simp add: IndexFrom_Cons add.assoc)
  qed
qed

text \<open>What the added tags mean for a map, whichever axis it belongs to.\<close>

lemma added_tags:
  assumes new: "IsValid t" "\<not> Contains m t"
    and m': "m' = m @ IndexFrom n (NewTags m t)"
  shows "map_of m' t = Some n"
    and "\<forall>k. Contains m k \<longrightarrow> map_of m' k = map_of m k"
    and "IsValid (RequestDirectParent t) \<longrightarrow> Contains m' (RequestDirectParent t)"
    and "HierarchyComplete m \<longrightarrow> list_all (Contains m') (AncestorChain t) \<and> HierarchyComplete m'"
proof -
  let ?new = "NewTags m t"
  let ?p = "RequestDirectParent t"
  have unf: "?new = t # NewTags m ?p" using new by (subst NewTags_unfold) simp
  have keys: "\<And>k. Contains m' k \<longleftrightarrow> Contains m k \<or> k \<in> set ?new"
    unfolding m' Contains_append by (simp add: Contains_iff IndexFrom_keys)
  show "map_of m' t = Some n"
    using new unfolding m' unf IndexFrom_Cons
    by (simp add: map_add_def Contains_def)
  show "\<forall>k. Contains m k \<longrightarrow> map_of m' k = map_of m k"
    unfolding m' by (auto simp: Contains_def map_add_def split: option.splits)
  show "IsValid ?p \<longrightarrow> Contains m' ?p"
  proof
    assume v: "IsValid ?p"
    show "Contains m' ?p"
    proof (cases "Contains m ?p")
      case True
      then show ?thesis by (simp add: keys)
    next
      case False
      with v have "NewTags m ?p = ?p # NewTags m (RequestDirectParent ?p)"
        by (subst NewTags_unfold) simp
      then show ?thesis by (simp add: keys unf)
    qed
  qed
  show "HierarchyComplete m \<longrightarrow> list_all (Contains m') (AncestorChain t) \<and> HierarchyComplete m'"
  proof
    assume hc: "HierarchyComplete m"
    have cov: "\<And>s. set (AncestorChain s) \<subseteq> set (NewTags m s) \<union> {a. Contains m a}"
      using chain_covered[OF hc] .
    have 1: "list_all (Contains m') (AncestorChain t)"
      using cov[of t] by (auto simp: list_all_iff keys)
    have 2: "HierarchyComplete m'"
      unfolding HierarchyComplete_iff
    proof (intro allI impI ballI)
      fix k a assume k: "Contains m' k" and a: "a \<in> set (AncestorChain k)"
      from k have "Contains m k \<or> k \<in> set ?new" by (simp add: keys)
      then show "Contains m' a"
      proof
        assume "Contains m k"
        with hc a have "Contains m a" by (auto simp: HierarchyComplete_iff)
        then show ?thesis by (simp add: keys)
      next
        assume "k \<in> set ?new"
        then have "k \<in> set (AncestorChain t)" using NewTags_subset by blast
        then have "a \<in> set (AncestorChain t)" using a AncestorChain_trans by blast
        then show ?thesis using 1 by (simp add: list_all_iff)
      qed
    qed
    from 1 2 show "list_all (Contains m') (AncestorChain t) \<and> HierarchyComplete m'" ..
  qed
qed

lemma Indexed_I:
  assumes "IsValid t" "\<not> Contains m t" "m' = m @ IndexFrom n (NewTags m t)"
    "n' = n + of_nat (length (NewTags m t))"
  shows "Indexed m n t m' n'"
  unfolding Indexed_def
  using assms added_tags[OF assms(1,2,3)]
  by (auto simp: list_all_iff Contains_iff)

text \<open>
  C5, as stated, fails when an indexed tag lacks an ancestor, which DeleteRow of a tag that
  still has descendants leaves behind. After AddRow of A.B and DeleteRow of A, AddRow of A.B.C
  returns true and stops at the indexed parent A.B: the ancestor A of A.B.C is not indexed.
\<close>

theorem AddRow_ancestor_chain_counterexample:
  "AddRow EmptyTable [''A'', ''B''] =
     Some (True, EmptyTable\<lparr>Rows := [([''A'', ''B''], 0), ([''A''], 1)], NextRowIndex := 2\<rparr>) \<and>
   DeleteRow (EmptyTable\<lparr>Rows := [([''A'', ''B''], 0), ([''A''], 1)], NextRowIndex := 2\<rparr>) [''A''] =
     Some (EmptyTable\<lparr>Rows := [([''A'', ''B''], 0)], NextRowIndex := 2\<rparr>) \<and>
   AddRow (EmptyTable\<lparr>Rows := [([''A'', ''B''], 0)], NextRowIndex := 2\<rparr>) [''A'', ''B'', ''C''] =
     Some (True, EmptyTable\<lparr>Rows := [([''A'', ''B''], 0), ([''A'', ''B'', ''C''], 2)],
                             NextRowIndex := 3\<rparr>) \<and>
   AncestorChain [''A'', ''B'', ''C''] = [[''A'', ''B'', ''C''], [''A'', ''B''], [''A'']] \<and>
   \<not> Contains [([''A'', ''B''], 0), ([''A'', ''B'', ''C''], 2)] [''A'']"
  by (simp add: AddRow.simps DeleteRow_def EmptyTable_def IsValid_def Contains_def
      RequestDirectParent_def AncestorChain_Cons)

text \<open>
  C5, amended. AddRow (and AddColumn) on an invalid or already-indexed tag returns false and
  leaves the whole table unchanged. On a new valid tag, with the pages in order, it returns
  true, assigns the next sequential index to the tag and the following ones to the ancestors
  it adds, which are the ancestors up to the first one already indexed; the direct parent is
  indexed afterwards, and the full ancestor chain of the tag is indexed provided every tag
  indexed before had its full ancestor chain indexed. The other axis is unchanged.
\<close>


theorem AddRow_AddColumn_indexing:
  assumes "list_all PageOK (Pages T)"
  shows "(\<not> IsValid t \<or> Contains (Rows T) t \<longrightarrow> AddRow T t = Some (False, T)) \<and>
         (IsValid t \<and> \<not> Contains (Rows T) t \<longrightarrow>
            (\<exists>T'. AddRow T t = Some (True, T') \<and>
                  Indexed (Rows T) (NextRowIndex T) t (Rows T') (NextRowIndex T') \<and>
                  Columns T' = Columns T \<and> NextColumnIndex T' = NextColumnIndex T)) \<and>
         (\<not> IsValid t \<or> Contains (Columns T) t \<longrightarrow> AddColumn T t = Some (False, T)) \<and>
         (IsValid t \<and> \<not> Contains (Columns T) t \<longrightarrow>
            (\<exists>T'. AddColumn T t = Some (True, T') \<and>
                  Indexed (Columns T) (NextColumnIndex T) t (Columns T') (NextColumnIndex T') \<and>
                  Rows T' = Rows T \<and> NextRowIndex T' = NextRowIndex T))"
proof (intro conjI impI)
  assume "\<not> IsValid t \<or> Contains (Rows T) t"
  then show "AddRow T t = Some (False, T)" by (auto simp: AddRow.simps)
next
  assume "\<not> IsValid t \<or> Contains (Columns T) t"
  then show "AddColumn T t = Some (False, T)" by (auto simp: AddColumn.simps)
next
  assume new: "IsValid t \<and> \<not> Contains (Rows T) t"
  from AddRow_total[OF assms, of t] obtain r T' where run: "AddRow T t = Some (r, T')" by blast
  from AddRow_effect[OF run] have e: "r = (NewTags (Rows T) t \<noteq> [])"
    "Rows T' = Rows T @ IndexFrom (NextRowIndex T) (NewTags (Rows T) t)"
    "NextRowIndex T' = NextRowIndex T + of_nat (length (NewTags (Rows T) t))"
    "Columns T' = Columns T" "NextColumnIndex T' = NextColumnIndex T" by simp_all
  have "r = True" using e(1) new by (subst (asm) NewTags_unfold) simp
  moreover have "Indexed (Rows T) (NextRowIndex T) t (Rows T') (NextRowIndex T')"
    using new e(2,3) by (intro Indexed_I) simp_all
  ultimately show "\<exists>T'. AddRow T t = Some (True, T') \<and>
                  Indexed (Rows T) (NextRowIndex T) t (Rows T') (NextRowIndex T') \<and>
                  Columns T' = Columns T \<and> NextColumnIndex T' = NextColumnIndex T"
    using run e(4,5) by blast
next
  assume new: "IsValid t \<and> \<not> Contains (Columns T) t"
  from AddColumn_total[OF assms, of t] obtain r T' where run: "AddColumn T t = Some (r, T')" by blast
  from AddColumn_effect[OF run] have e: "r = (NewTags (Columns T) t \<noteq> [])"
    "Columns T' = Columns T @ IndexFrom (NextColumnIndex T) (NewTags (Columns T) t)"
    "NextColumnIndex T' = NextColumnIndex T + of_nat (length (NewTags (Columns T) t))"
    "Rows T' = Rows T" "NextRowIndex T' = NextRowIndex T" by simp_all
  have "r = True" using e(1) new by (subst (asm) NewTags_unfold) simp
  moreover have "Indexed (Columns T) (NextColumnIndex T) t (Columns T') (NextColumnIndex T')"
    using new e(2,3) by (intro Indexed_I) simp_all
  ultimately show "\<exists>T'. AddColumn T t = Some (True, T') \<and>
                  Indexed (Columns T) (NextColumnIndex T) t (Columns T') (NextColumnIndex T') \<and>
                  Rows T' = Rows T \<and> NextRowIndex T' = NextRowIndex T"
    using run e(4,5) by blast
qed

theorem AddRow_AddColumn_indexing_witness:
  "list_all PageOK (Pages ExampleTable) \<and> HierarchyComplete (Rows ExampleTable) \<and>
   AddRow ExampleTable [''A''] = Some (False, ExampleTable) \<and>
   (\<exists>T'. AddRow ExampleTable [''B'', ''C''] = Some (True, T') \<and>
         map_of (Rows T') [''B'', ''C''] = Some 1 \<and>
         list_all (Contains (Rows T')) [[''B'', ''C''], [''B'']] \<and>
         NextRowIndex T' = 3 \<and> Columns T' = Columns ExampleTable)"
proof -
  have ok: "list_all PageOK (Pages ExampleTable)"
    by (simp add: Example_defs PageOK_def BlockOK_def InvalidHandle_def)
  have hc: "HierarchyComplete (Rows ExampleTable)"
    by (simp add: Example_defs HierarchyComplete_def AncestorChain_Cons Contains_def)
  have old: "Contains (Rows ExampleTable) [''A'']" and v: "IsValid [''B'', ''C'']"
    and new: "\<not> Contains (Rows ExampleTable) [''B'', ''C'']"
    by (simp_all add: Example_defs Contains_def IsValid_def)
  have nt: "NewTags (Rows ExampleTable) [''B'', ''C''] = [[''B'', ''C''], [''B'']]"
    by (simp add: NewTags_unfold Example_defs Contains_def IsValid_def RequestDirectParent_def)
  have ch: "AncestorChain [''B'', ''C''] = [[''B'', ''C''], [''B'']]"
    by (simp add: AncestorChain_Cons)
  have n: "NextRowIndex ExampleTable = 1" by (simp add: Example_defs)
  from AddRow_AddColumn_indexing [OF ok, of "[''A'']"] old
  have noop: "AddRow ExampleTable [''A''] = Some (False, ExampleTable)" by blast
  from AddRow_AddColumn_indexing [OF ok, of "[''B'', ''C'']"] v new
  obtain T' where T': "AddRow ExampleTable [''B'', ''C''] = Some (True, T')"
    "Indexed (Rows ExampleTable) (NextRowIndex ExampleTable) [''B'', ''C''] (Rows T')
       (NextRowIndex T')"
    "Columns T' = Columns ExampleTable"
    by blast
  from T'(2) have i1: "map_of (Rows T') [''B'', ''C''] = Some (NextRowIndex ExampleTable)"
    and i2: "NextRowIndex T' = NextRowIndex ExampleTable +
               of_nat (length (NewTags (Rows ExampleTable) [''B'', ''C'']))"
    and i3: "HierarchyComplete (Rows ExampleTable) \<longrightarrow>
               list_all (Contains (Rows T')) (AncestorChain [''B'', ''C'']) \<and>
               HierarchyComplete (Rows T')"
    unfolding Indexed_def by blast+
  have "map_of (Rows T') [''B'', ''C''] = Some 1" using i1 n by simp
  moreover have "NextRowIndex T' = 3" using i2 nt n by simp
  moreover have "list_all (Contains (Rows T')) [[''B'', ''C''], [''B'']]"
    using i3 hc ch by simp
  ultimately show ?thesis using ok hc noop T'(1,3) by blast
qed

section \<open>Properties of DeleteColumn\<close>







































section \<open>Properties of loading\<close>

lemma FindOrphans_walk_correct:
  assumes tails: "\<forall>x \<in> set Tails. list_all (\<lambda>a. a \<in> set Tags) (AncestorChain x)"
  shows "FindOrphans_walk Tails Tags P = (\<not> list_all (\<lambda>a. a \<in> set Tags) (AncestorChain P))"
proof (induction P rule: length_induct)
  case (1 P)
  show ?case
  proof (cases "P = []")
    case True
    then show ?thesis by (simp add: FindOrphans_walk.simps IsValid_def)
  next
    case False
    then have ch: "AncestorChain P = P # AncestorChain (butlast P)" by (rule AncestorChain_Cons)
    have l: "length (butlast P) < length P" using False by simp
    show ?thesis
    proof (cases "P \<in> set Tails")
      case True
      with tails have "list_all (\<lambda>a. a \<in> set Tags) (AncestorChain P)" by blast
      then show ?thesis using True False by (subst FindOrphans_walk.simps) (simp add: IsValid_def)
    next
      case nt: False
      show ?thesis
      proof (cases "P \<in> set Tags")
        case True
        have "FindOrphans_walk Tails Tags P = FindOrphans_walk Tails Tags (butlast P)"
          using nt True False
          by (subst FindOrphans_walk.simps) (simp add: IsValid_def RequestDirectParent_def)
        also have "\<dots> = (\<not> list_all (\<lambda>a. a \<in> set Tags) (AncestorChain (butlast P)))"
          using 1 l by blast
        finally show ?thesis using True by (simp add: ch)
      next
        case False
        then show ?thesis using nt \<open>P \<noteq> []\<close>
          by (subst FindOrphans_walk.simps) (simp add: IsValid_def ch)
      qed
    qed
  qed
qed

lemma FindOrphans_loop_set:
  assumes "\<forall>x \<in> set Tails. list_all (\<lambda>a. a \<in> set Tags) (AncestorChain x)"
    and "set rest \<subseteq> set Tags"
  shows "set (FindOrphans_loop Tags rest Orphans Tails) =
           set Orphans \<union> {t \<in> set rest. IsOrphan Tags t}"
  using assms
proof (induction rest arbitrary: Orphans Tails)
  case Nil
  then show ?case by simp
next
  case (Cons Tag rest)
  have w: "FindOrphans_walk Tails Tags (RequestDirectParent Tag) = IsOrphan Tags Tag"
    unfolding IsOrphan_def using Cons.prems(1) by (rule FindOrphans_walk_correct)
  show ?case
  proof (cases "IsOrphan Tags Tag")
    case True
    with w Cons.IH[OF Cons.prems(1), of "TSet_Add Orphans Tag"] Cons.prems(2)
    show ?thesis by (auto simp: TSet_Add_def)
  next
    case False
    have tag: "list_all (\<lambda>a. a \<in> set Tags) (AncestorChain Tag)"
    proof (cases "Tag = []")
      case True
      then show ?thesis by simp
    next
      case ne: False
      from False have "list_all (\<lambda>a. a \<in> set Tags) (AncestorChain (butlast Tag))"
        by (simp add: IsOrphan_def RequestDirectParent_def)
      with ne Cons.prems(2) show ?thesis by (simp add: AncestorChain_Cons)
    qed
    have "\<forall>x \<in> set (TSet_Add Tails Tag). list_all (\<lambda>a. a \<in> set Tags) (AncestorChain x)"
      using Cons.prems(1) tag by (auto simp: TSet_Add_def)
    from Cons.IH[OF this, of Orphans] Cons.prems(2) w False
    show ?thesis by auto
  qed
qed

lemma FindOrphans_set: "set (FindOrphans Tags) = {t \<in> set Tags. IsOrphan Tags t}"
  unfolding FindOrphans_def by (subst FindOrphans_loop_set) auto

lemma IsOrphan_valid: "IsOrphan Tags t \<Longrightarrow> IsValid t"
  by (cases "t = []") (auto simp: IsOrphan_def IsValid_def RequestDirectParent_def)

lemma Contains_delete: "Contains (AList.delete k m) x \<longleftrightarrow> Contains m x \<and> x \<noteq> k"
  by (auto simp: Contains_def AList.delete_conv)

lemma DeleteRow_effect:
  assumes "DeleteRow T t = Some T'"
  shows "(\<forall>x. Contains (Rows T') x \<longleftrightarrow> Contains (Rows T) x \<and> \<not> (x = t \<and> IsValid t)) \<and>
         Columns T' = Columns T \<and> RowTags T' = RowTags T \<and> ColumnTags T' = ColumnTags T \<and>
         bHasLoadingErrors T' = bHasLoadingErrors T \<and>
         (\<forall>x. x \<noteq> t \<longrightarrow> map_of (Rows T') x = map_of (Rows T) x)"
proof (cases "IsValid t \<and> Contains (Rows T) t")
  case False
  with assms have "T' = T" by (auto simp: DeleteRow_def)
  with False show ?thesis by auto
next
  case True
  with assms obtain ps where "T' = T\<lparr>Pages := ps, Rows := AList.delete t (Rows T),
                       RowColors := AList.delete t (RowColors T)\<rparr>"
    by (auto simp: DeleteRow_def split: option.splits Option.bind_splits)
  then show ?thesis using True by (auto simp: Contains_delete AList.delete_conv)
qed

lemma DeleteColumn_effect':
  assumes "DeleteColumn T t = Some T'"
  shows "(\<forall>x. Contains (Columns T') x \<longleftrightarrow> Contains (Columns T) x \<and> \<not> (x = t \<and> IsValid t)) \<and>
         Rows T' = Rows T \<and> RowTags T' = RowTags T \<and> ColumnTags T' = ColumnTags T \<and>
         bHasLoadingErrors T' = bHasLoadingErrors T \<and>
         (\<forall>x. x \<noteq> t \<longrightarrow> map_of (Columns T') x = map_of (Columns T) x)"
proof (cases "IsValid t \<and> Contains (Columns T) t")
  case False
  with assms have "T' = T" by (auto simp: DeleteColumn_def)
  with False show ?thesis by auto
next
  case True
  with assms obtain ps where "T' = T\<lparr>Pages := ps, Columns := AList.delete t (Columns T),
                       ColumnColors := AList.delete t (ColumnColors T)\<rparr>"
    by (auto simp: DeleteColumn_def split: option.splits Option.bind_splits)
  then show ?thesis using True by (auto simp: Contains_delete AList.delete_conv)
qed

lemma DeleteRows_effect:
  "DeleteRows T ts = Some T' \<Longrightarrow>
     (\<forall>x. Contains (Rows T') x \<longleftrightarrow> Contains (Rows T) x \<and> \<not> (x \<in> set ts \<and> IsValid x)) \<and>
     Columns T' = Columns T \<and> RowTags T' = RowTags T \<and> ColumnTags T' = ColumnTags T \<and>
     bHasLoadingErrors T' = bHasLoadingErrors T \<and>
     (\<forall>x. x \<notin> set ts \<longrightarrow> map_of (Rows T') x = map_of (Rows T) x)"
proof (induction ts arbitrary: T)
  case Nil
  then show ?case by simp
next
  case (Cons t ts)
  from Cons.prems obtain T1 where d: "DeleteRow T t = Some T1" and r: "DeleteRows T1 ts = Some T'"
    by (auto split: Option.bind_splits)
  from DeleteRow_effect[OF d] Cons.IH[OF r] show ?case by auto
qed

lemma DeleteColumns_effect:
  "DeleteColumns T ts = Some T' \<Longrightarrow>
     (\<forall>x. Contains (Columns T') x \<longleftrightarrow> Contains (Columns T) x \<and> \<not> (x \<in> set ts \<and> IsValid x)) \<and>
     Rows T' = Rows T \<and> RowTags T' = RowTags T \<and> ColumnTags T' = ColumnTags T \<and>
     bHasLoadingErrors T' = bHasLoadingErrors T \<and>
     (\<forall>x. x \<notin> set ts \<longrightarrow> map_of (Columns T') x = map_of (Columns T) x)"
proof (induction ts arbitrary: T)
  case Nil
  then show ?case by simp
next
  case (Cons t ts)
  from Cons.prems obtain T1 where d: "DeleteColumn T t = Some T1" and r: "DeleteColumns T1 ts = Some T'"
    by (auto split: Option.bind_splits)
  from DeleteColumn_effect'[OF d] Cons.IH[OF r] show ?case by auto
qed

lemma survivors_complete:
  assumes keys: "\<forall>x. Contains m' x \<longleftrightarrow> x \<in> set Tags \<and> \<not> IsOrphan Tags x"
  shows "HierarchyComplete m'"
  unfolding HierarchyComplete_iff
proof (intro allI impI ballI)
  fix k a assume k: "Contains m' k" and a: "a \<in> set (AncestorChain k)"
  from k keys have kt: "k \<in> set Tags" and ko: "\<not> IsOrphan Tags k" by auto
  have kne: "k \<noteq> []" using a by auto
  from ko have par: "\<forall>b \<in> set (AncestorChain (butlast k)). b \<in> set Tags"
    by (simp add: IsOrphan_def RequestDirectParent_def list_all_iff)
  with kt kne have all: "\<forall>b \<in> set (AncestorChain k). b \<in> set Tags"
    by (simp add: AncestorChain_Cons)
  have sub: "set (AncestorChain a) \<subseteq> set (AncestorChain k)" using a by (rule AncestorChain_trans)
  have "set (AncestorChain (butlast a)) \<subseteq> set (AncestorChain a)"
    by (cases "a = []") (auto simp: AncestorChain_Cons)
  with sub all have "\<not> IsOrphan Tags a"
    by (auto simp: IsOrphan_def RequestDirectParent_def list_all_iff)
  moreover have "a \<in> set Tags" using a all by blast
  ultimately show "Contains m' a" using keys by blast
qed

lemma EnsureTagHierarchy_effect:
  assumes run: "EnsureTagHierarchy T = Some T'"
    and rows: "\<forall>x. Contains (Rows T) x \<longleftrightarrow> x \<in> set (RowTags T)"
    and cols: "\<forall>x. Contains (Columns T) x \<longleftrightarrow> x \<in> set (ColumnTags T)"
  shows "RowTags T' = RowTags T \<and> ColumnTags T' = ColumnTags T \<and>
         (\<forall>x. Contains (Rows T') x \<longleftrightarrow> x \<in> set (RowTags T) \<and> \<not> IsOrphan (RowTags T) x) \<and>
         (\<forall>x. Contains (Columns T') x \<longleftrightarrow> x \<in> set (ColumnTags T) \<and> \<not> IsOrphan (ColumnTags T) x) \<and>
         (\<forall>x. Contains (Rows T') x \<longrightarrow> map_of (Rows T') x = map_of (Rows T) x) \<and>
         (\<forall>x. Contains (Columns T') x \<longrightarrow> map_of (Columns T') x = map_of (Columns T) x) \<and>
         (bHasLoadingErrors T' \<longleftrightarrow>
            bHasLoadingErrors T \<or> FindOrphans (RowTags T) \<noteq> [] \<or> FindOrphans (ColumnTags T) \<noteq> [])"
proof -
  from run obtain T1 T2 where d1: "DeleteRows T (FindOrphans (RowTags T)) = Some T1"
    and d2: "DeleteColumns T1 (FindOrphans (ColumnTags T1)) = Some T2"
    and T': "T' = T2\<lparr>bHasLoadingErrors := bHasLoadingErrors T2 \<or> FindOrphans (RowTags T) \<noteq> [] \<or>
                   FindOrphans (ColumnTags T1) \<noteq> []\<rparr>"
    by (auto simp: EnsureTagHierarchy_def Let_def split: Option.bind_splits)
  note e1 = DeleteRows_effect[OF d1]
  note e2 = DeleteColumns_effect[OF d2]
  have ct: "ColumnTags T1 = ColumnTags T" using e1 by simp
  have r: "\<forall>x. Contains (Rows T') x \<longleftrightarrow> x \<in> set (RowTags T) \<and> \<not> IsOrphan (RowTags T) x"
    using e1 e2 T' rows by (auto simp: FindOrphans_set dest: IsOrphan_valid)
  have c: "\<forall>x. Contains (Columns T') x \<longleftrightarrow> x \<in> set (ColumnTags T) \<and> \<not> IsOrphan (ColumnTags T) x"
    using e1 e2 T' cols ct by (auto simp: FindOrphans_set dest: IsOrphan_valid)
  have rm: "\<forall>x. Contains (Rows T') x \<longrightarrow> map_of (Rows T') x = map_of (Rows T) x"
    using e1 e2 T' r by (auto simp: FindOrphans_set)
  have cm: "\<forall>x. Contains (Columns T') x \<longrightarrow> map_of (Columns T') x = map_of (Columns T) x"
    using e1 e2 T' c ct by (auto simp: FindOrphans_set)
  show ?thesis using r c rm cm e1 e2 T' ct by simp
qed

lemma Contains_update: "Contains (AList.update k v m) x \<longleftrightarrow> Contains m x \<or> x = k"
  by (auto simp: Contains_def update_conv')

lemma GenerateRows_effect:
  "(\<forall>x. Contains (Rows (GenerateRows cfg ts T)) x \<longleftrightarrow> Contains (Rows T) x \<or> x \<in> set ts) \<and>
   Columns (GenerateRows cfg ts T) = Columns T \<and>
   NextColumnIndex (GenerateRows cfg ts T) = NextColumnIndex T \<and>
   RowTags (GenerateRows cfg ts T) = RowTags T \<and>
   ColumnTags (GenerateRows cfg ts T) = ColumnTags T"
proof (induction ts arbitrary: T)
  case Nil
  then show ?case by simp
next
  case (Cons t ts)
  show ?case
  proof (cases "UE_BUILD_DEVELOPMENT cfg \<and> Contains (Rows T) t")
    case True
    then show ?thesis using Cons.IH[of "T\<lparr>bHasLoadingErrors := True\<rparr>"] by auto
  next
    case False
    then show ?thesis
      using Cons.IH[of "T\<lparr>Rows := AList.update t (NextRowIndex T) (Rows T),
                NextRowIndex := NextRowIndex T + 1\<rparr>"]
      by (auto simp: Contains_update)
  qed
qed

lemma GenerateColumns_effect:
  "(\<forall>x. Contains (Columns (GenerateColumns cfg ts T)) x \<longleftrightarrow> Contains (Columns T) x \<or> x \<in> set ts) \<and>
   Rows (GenerateColumns cfg ts T) = Rows T \<and>
   NextRowIndex (GenerateColumns cfg ts T) = NextRowIndex T \<and>
   RowTags (GenerateColumns cfg ts T) = RowTags T \<and>
   ColumnTags (GenerateColumns cfg ts T) = ColumnTags T"
proof (induction ts arbitrary: T)
  case Nil
  then show ?case by simp
next
  case (Cons t ts)
  show ?case
  proof (cases "UE_BUILD_DEVELOPMENT cfg \<and> Contains (Columns T) t")
    case True
    then show ?thesis using Cons.IH[of "T\<lparr>bHasLoadingErrors := True\<rparr>"] by auto
  next
    case False
    then show ?thesis
      using Cons.IH[of "T\<lparr>Columns := AList.update t (NextColumnIndex T) (Columns T),
                NextColumnIndex := NextColumnIndex T + 1\<rparr>"]
      by (auto simp: Contains_update)
  qed
qed

lemma GenerateRowAndColumnMaps_effect:
  assumes "GenerateRowAndColumnMaps cfg T = Some T1"
  shows "(\<forall>x. Contains (Rows T1) x \<longleftrightarrow> x \<in> set (RowTags T)) \<and>
         (\<forall>x. Contains (Columns T1) x \<longleftrightarrow> x \<in> set (ColumnTags T)) \<and>
         RowTags T1 = RowTags T \<and> ColumnTags T1 = ColumnTags T"
proof -
  from assms have e: "Rows T = []" "Columns T = []"
    and T1: "T1 = GenerateColumns cfg (ColumnTags T) (GenerateRows cfg (RowTags T) T)"
    by (auto simp: GenerateRowAndColumnMaps_def split: if_splits)
  show ?thesis
    unfolding T1
    using GenerateRows_effect[of cfg "RowTags T" T]
      GenerateColumns_effect[of cfg "ColumnTags T" "GenerateRows cfg (RowTags T) T"] e
    by (simp add: Contains_def)
qed

lemma LoadTable_pages_frame:
  "LoadTable_pages fp n T Ar = Some (Inr (T', Ar')) \<Longrightarrow>
     SameAxes T T' \<and> bHasLoadingErrors T' = bHasLoadingErrors T"
proof (induction n arbitrary: T Ar)
  case 0
  then show ?case by (simp add: SameAxes_def)
next
  case (Suc n)
  from Suc.prems obtain nm Ar1 f Ar2 S Page Page1 Ar3 where
    "FindStructByName T nm = Some S"
    and rec: "LoadTable_pages fp n (T\<lparr>Pages := Pages T @ [Page1]\<rparr>) Ar3 = Some (Inr (T', Ar'))"
    by (auto split: Option.bind_splits option.splits)
  from Suc.IH[OF rec] show ?case by (simp add: SameAxes_def)
qed

lemma LoadTable_links_Suc:
  assumes "LoadTable_links (Suc n) T Ar = Some (T', Ar')"
  shows "\<exists>T1 Ar3. SameAxes T T1 \<and> bHasLoadingErrors T1 = bHasLoadingErrors T \<and>
           Pages T1 = Pages T \<and> LoadTable_links n T1 Ar3 = Some (T', Ar')"
proof -
  from assms obtain nm Ar1 where n: "ReadName Ar = Some (nm, Ar1)"
    by (auto split: Option.bind_splits)
  from assms n obtain lc Ar2 where l: "ReadI32 Ar1 = Some (lc, Ar2)"
    by (auto split: Option.bind_splits)
  show ?thesis
  proof (cases "lc = 0")
    case True
    with assms n l have "LoadTable_links n T Ar2 = Some (T', Ar')" by simp
    then show ?thesis by (intro exI[of _ T] exI[of _ Ar2]) (simp add: SameAxes_def)
  next
    case False
    with assms n l obtain Map Ar4 where
      "LoadTable_links n (T\<lparr>InheritanceMaps := AList.update nm Map (InheritanceMaps T)\<rparr>) Ar4 =
         Some (T', Ar')"
      by (auto split: Option.bind_splits)
    then show ?thesis
      by (intro exI[of _ "T\<lparr>InheritanceMaps := AList.update nm Map (InheritanceMaps T)\<rparr>"]
                exI[of _ Ar4]) (simp add: SameAxes_def)
  qed
qed

lemma LoadTable_links_frame:
  "LoadTable_links n T Ar = Some (T', Ar') \<Longrightarrow>
     SameAxes T T' \<and> bHasLoadingErrors T' = bHasLoadingErrors T \<and> Pages T' = Pages T"
proof (induction n arbitrary: T Ar)
  case 0
  then show ?case by (simp add: SameAxes_def)
next
  case (Suc n)
  from LoadTable_links_Suc[OF Suc.prems] obtain T1 Ar3 where
    step: "SameAxes T T1 \<and> bHasLoadingErrors T1 = bHasLoadingErrors T \<and> Pages T1 = Pages T"
    and rec: "LoadTable_links n T1 Ar3 = Some (T', Ar')"
    by blast
  from Suc.IH[OF rec] step show ?case by (simp add: SameAxes_def)
qed

lemma LoadTable_body_completed:
  assumes "LoadTable_body cfg fp T Ar = Some (True, T')" and ed: "WITH_EDITOR cfg"
  shows "\<exists>T3. EnsureTagHierarchy T3 = Some T' \<and>
           (\<forall>x. Contains (Rows T3) x \<longleftrightarrow> x \<in> set (RowTags T)) \<and>
           (\<forall>x. Contains (Columns T3) x \<longleftrightarrow> x \<in> set (ColumnTags T)) \<and>
           RowTags T3 = RowTags T \<and> ColumnTags T3 = ColumnTags T"
proof -
  from assms(1) obtain T1 where g: "GenerateRowAndColumnMaps cfg T = Some T1"
    by (auto simp: LoadTable_body_def split: Option.bind_splits)
  note e1 = GenerateRowAndColumnMaps_effect[OF g]
  from assms(1) g obtain n Ar1 T2 Ar2 where
    p: "LoadTable_pages fp n T1 Ar1 = Some (Inr (T2, Ar2))"
    and rest: "(do {
                  (rc, Ar3) \<leftarrow> ReadColors Ar2;
                  (cc, Ar4) \<leftarrow> ReadColors Ar3;
                  (PagesToLoad2, Ar5) \<leftarrow> ReadI32 Ar4;
                  (T3, Ar6) \<leftarrow>
                    LoadTable_links (unat PagesToLoad2) (T2\<lparr>RowColors := rc, ColumnColors := cc\<rparr>) Ar5;
                  T4 \<leftarrow> (if WITH_EDITOR cfg then EnsureTagHierarchy T3 else Some T3);
                  Some (True, T4)
                }) = Some (True, T')"
    by (auto simp: LoadTable_body_def split: Option.bind_splits if_splits sum.splits)
  note e2 = LoadTable_pages_frame[OF p]
  from rest ed obtain rc cc m Ar5 T3 Ar6 where
    l: "LoadTable_links m (T2\<lparr>RowColors := rc, ColumnColors := cc\<rparr>) Ar5 = Some (T3, Ar6)"
    and h: "EnsureTagHierarchy T3 = Some T'"
    by (auto split: Option.bind_splits)
  note e3 = LoadTable_links_frame[OF l]
  show ?thesis
    using h e1 e2 e3 by (intro exI[of _ T3]) (simp add: SameAxes_def)
qed

lemma LoadTable_run_completed:
  assumes "LoadTable_run cfg T Ar = Some (True, T')"
  shows "\<exists>fp Ar1. LoadTable_body cfg fp (ClearTable T) Ar1 = Some (True, T')"
proof -
  from assms obtain v Ar1 where
    "(if v < FileFormatVersion then
        (if v = 3 then LoadTable_body cfg False (ClearTable T) Ar1 else Some (False, ClearTable T))
      else LoadTable_body cfg True (ClearTable T) Ar1) = Some (True, T')"
    by (auto simp: LoadTable_run_def Let_def split: Option.bind_splits)
  then have "LoadTable_body cfg False (ClearTable T) Ar1 = Some (True, T') \<or>
             LoadTable_body cfg True (ClearTable T) Ar1 = Some (True, T')"
    by (auto split: if_splits)
  then show ?thesis by blast
qed

text \<open>
  C6, amended. In an editor build, after a load that runs to its end (no structure named in
  the archive is missing from the table and, in a development build, no tag is duplicated):
  the indexed row tags are exactly the loaded row tags that are no orphans, and the same for
  the columns, so every orphan has been deleted; the loading-error flag is set when at least
  one loaded tag is an orphan; and every surviving tag has its complete ancestor chain
  indexed. The tag arrays themselves are as loaded.
\<close>

theorem LoadTable_repairs_hierarchy:
  assumes run: "LoadTable_run cfg T Ar = Some (True, T')" and ed: "WITH_EDITOR cfg"
  shows "RowTags T' = RowTags T \<and> ColumnTags T' = ColumnTags T \<and>
         (\<forall>t. Contains (Rows T') t \<longleftrightarrow> t \<in> set (RowTags T) \<and> \<not> IsOrphan (RowTags T) t) \<and>
         (\<forall>t. Contains (Columns T') t \<longleftrightarrow>
               t \<in> set (ColumnTags T) \<and> \<not> IsOrphan (ColumnTags T) t) \<and>
         (list_ex (IsOrphan (RowTags T)) (RowTags T) \<or>
          list_ex (IsOrphan (ColumnTags T)) (ColumnTags T) \<longrightarrow> bHasLoadingErrors T') \<and>
         HierarchyComplete (Rows T') \<and> HierarchyComplete (Columns T')"
proof -
  from LoadTable_run_completed[OF run] obtain fp Ar1 where
    b: "LoadTable_body cfg fp (ClearTable T) Ar1 = Some (True, T')" by blast
  from LoadTable_body_completed[OF b ed] obtain T3 where
    h: "EnsureTagHierarchy T3 = Some T'"
    and r3: "\<forall>x. Contains (Rows T3) x \<longleftrightarrow> x \<in> set (RowTags T3)"
    and c3: "\<forall>x. Contains (Columns T3) x \<longleftrightarrow> x \<in> set (ColumnTags T3)"
    and t3: "RowTags T3 = RowTags T" "ColumnTags T3 = ColumnTags T"
    by (auto simp: ClearTable_def)
  note e = EnsureTagHierarchy_effect[OF h r3 c3]
  have r: "\<forall>t. Contains (Rows T') t \<longleftrightarrow> t \<in> set (RowTags T) \<and> \<not> IsOrphan (RowTags T) t"
    using e t3 by simp
  have c: "\<forall>t. Contains (Columns T') t \<longleftrightarrow> t \<in> set (ColumnTags T) \<and> \<not> IsOrphan (ColumnTags T) t"
    using e t3 by simp
  have f: "list_ex (IsOrphan (RowTags T)) (RowTags T) \<or>
          list_ex (IsOrphan (ColumnTags T)) (ColumnTags T) \<longrightarrow> bHasLoadingErrors T'"
  proof
    assume "list_ex (IsOrphan (RowTags T)) (RowTags T) \<or>
          list_ex (IsOrphan (ColumnTags T)) (ColumnTags T)"
    then have "set (FindOrphans (RowTags T)) \<noteq> {} \<or> set (FindOrphans (ColumnTags T)) \<noteq> {}"
      by (auto simp: FindOrphans_set list_ex_iff)
    then have "FindOrphans (RowTags T) \<noteq> [] \<or> FindOrphans (ColumnTags T) \<noteq> []" by auto
    then show "bHasLoadingErrors T'" using e t3 by simp
  qed
  from r c f survivors_complete[OF r] survivors_complete[OF c] e t3 show ?thesis by simp
qed

lemmas Load_defs =
  LoadTable_run_def LoadTable_body_def ClearTable_def GenerateRowAndColumnMaps_def
  FileFormatVersion_def ReadU32_def ReadI32_def ReadString_def ReadColors_def ReadName_def
  FindStructByName_def FString_eq_def ToLower_def EnsureTagHierarchy_def FindOrphans_def FindOrphans_walk.simps TSet_Add_def
  DeleteRow_def DeleteColumn_def Contains_def IsValid_def RequestDirectParent_def

text \<open>
  C6, as stated, fails. In a game build LoadTable never calls EnsureTagHierarchy: the load of
  a current-version archive runs to its end and leaves the orphan A.B indexed, with no error
  flagged. In an editor build, an archive that names a structure the table does not have
  makes LoadTable return before EnsureTagHierarchy, and the orphan stays indexed as well.
\<close>

theorem LoadTable_orphans_counterexample:
  "LoadTable_run GameConfig OrphanTable [ArU32 4, ArI32 0, ArColors [], ArColors [], ArI32 0] =
     Some (True, OrphanTable\<lparr>Rows := [([''A'', ''B''], 0), ([''C''], 1), ([''C'', ''D''], 2)],
                              NextRowIndex := 3\<rparr>) \<and>
   LoadTable_run EditorConfig OrphanTable [ArU32 4, ArI32 1, ArString ''Gone'', ArI32 4] =
     Some (False, OrphanTable\<lparr>Rows := [([''A'', ''B''], 0), ([''C''], 1), ([''C'', ''D''], 2)],
                               NextRowIndex := 3, bHasLoadingErrors := True\<rparr>) \<and>
   IsOrphan (RowTags OrphanTable) [''A'', ''B''] \<and>
   Contains [([''A'', ''B''], 0), ([''C''], 1), ([''C'', ''D''], 2 :: TagIndex)] [''A'', ''B''] \<and>
   \<not> HierarchyComplete [([''A'', ''B''], 0), ([''C''], 1), ([''C'', ''D''], 2)]"
  by (simp add: Load_defs GameConfig_def EditorConfig_def OrphanTable_def EmptyTable_def
      IsOrphan_def AncestorChain_Cons HierarchyComplete_def)

lemma Example_LoadTable:
  "LoadTable_run EditorConfig OrphanTable [ArU32 4, ArI32 0, ArColors [], ArColors [], ArI32 0] =
     Some (True, OrphanTable\<lparr>Rows := [([''C''], 1), ([''C'', ''D''], 2)], NextRowIndex := 3,
                              bHasLoadingErrors := True\<rparr>)"
  by (simp add: Load_defs EditorConfig_def OrphanTable_def EmptyTable_def)

text \<open>
  A load that builds a page: the archive names the structure Damage of the table as damage,
  which FString equality accepts; the page gets one row for each of the three loaded row
  tags, and the repair deletes the row of the orphan A.B.
\<close>

lemma Example_page_rows:
  "FAffinityTablePage_new ExampleStruct 3 0 False =
     Some \<lparr>PageStruct = ExampleStruct, PageRows = [Some [], Some [], Some []], Datablocks = [],
           DeletedColumns = {}, PageColumns = 0, FixedMode = False, CurrentDatablock = 0\<rparr>"
proof -
  have n: "unat (3 :: 32 word) = Suc (Suc (Suc 0))" by simp
  show ?thesis
    unfolding FAffinityTablePage_new_def Let_def n
    by (simp add: Page_AddRow_def AppendHandles_def)
qed

lemma Example_LoadTable_page:
  "LoadTable_run EditorConfig (OrphanTable\<lparr>Structures := [Some ExampleStruct]\<rparr>)
     [ArU32 4, ArI32 1, ArString ''damage'', ArI32 4, ArColors [], ArColors [], ArI32 1,
      ArName ''Damage'', ArI32 0] =
   Some (True, OrphanTable\<lparr>Structures := [Some ExampleStruct],
                            Rows := [([''C''], 1), ([''C'', ''D''], 2)], NextRowIndex := 3,
                            Pages := [\<lparr>PageStruct = ExampleStruct,
                                       PageRows = [None, Some [], Some []], Datablocks = [],
                                       DeletedColumns = {}, PageColumns = 0, FixedMode = False,
                                       CurrentDatablock = 0\<rparr>],
                            bHasLoadingErrors := True\<rparr>)"
proof -
  have s: "StructFName ExampleStruct = ''Damage''" by (simp add: ExampleStruct_def)
  show ?thesis
    by (simp add: Load_defs EditorConfig_def OrphanTable_def EmptyTable_def s
      Example_page_rows SerializePage_cells_def Page_DeleteRow_def GetRow_def)
qed

theorem LoadTable_repairs_hierarchy_witness:
  "LoadTable_run EditorConfig OrphanTable [ArU32 4, ArI32 0, ArColors [], ArColors [], ArI32 0] =
     Some (True, OrphanTable\<lparr>Rows := [([''C''], 1), ([''C'', ''D''], 2)], NextRowIndex := 3,
                              bHasLoadingErrors := True\<rparr>) \<and>
   WITH_EDITOR EditorConfig \<and>
   list_ex (IsOrphan (RowTags OrphanTable)) (RowTags OrphanTable) \<and>
   HierarchyComplete [([''C''], 1), ([''C'', ''D''], 2)] \<and>
   \<not> Contains [([''C''], 1), ([''C'', ''D''], 2 :: TagIndex)] [''A'', ''B''] \<and>
   LoadTable_run EditorConfig (OrphanTable\<lparr>Structures := [Some ExampleStruct]\<rparr>)
     [ArU32 4, ArI32 1, ArString ''damage'', ArI32 4, ArColors [], ArColors [], ArI32 1,
      ArName ''Damage'', ArI32 0] =
   Some (True, OrphanTable\<lparr>Structures := [Some ExampleStruct],
                            Rows := [([''C''], 1), ([''C'', ''D''], 2)], NextRowIndex := 3,
                            Pages := [\<lparr>PageStruct = ExampleStruct,
                                       PageRows = [None, Some [], Some []], Datablocks = [],
                                       DeletedColumns = {}, PageColumns = 0, FixedMode = False,
                                       CurrentDatablock = 0\<rparr>],
                            bHasLoadingErrors := True\<rparr>)"
proof -
  have ed: "WITH_EDITOR EditorConfig" by (simp add: EditorConfig_def)
  have orph: "list_ex (IsOrphan (RowTags OrphanTable)) (RowTags OrphanTable)"
    by (simp add: OrphanTable_def IsOrphan_def RequestDirectParent_def AncestorChain_Cons)
  have o: "IsOrphan (RowTags OrphanTable) [''A'', ''B'']"
    by (simp add: OrphanTable_def IsOrphan_def RequestDirectParent_def AncestorChain_Cons)
  from LoadTable_repairs_hierarchy [OF Example_LoadTable ed] o
  have "HierarchyComplete [([''C''], 1), ([''C'', ''D''], 2)] \<and>
        \<not> Contains [([''C''], 1), ([''C'', ''D''], 2 :: TagIndex)] [''A'', ''B'']"
    by simp
  with Example_LoadTable Example_LoadTable_page ed orph show ?thesis by blast
qed

section \<open>Properties of saving and loading\<close>





lemma lo_mask: "(0x00000000FFFFFFFF :: 64 word) = mask 32"
  by (simp add: mask_eq_exp_minus_1)

lemma hi_mask: "(0xFFFFFFFF00000000 :: 64 word) = push_bit 32 (mask 32)"
  by (simp add: mask_eq_exp_minus_1 push_bit_eq_mult)

lemma HandleOf_hi: "(ucast (drop_bit 32 (HandleOf i h AND 0xFFFFFFFF00000000)) :: 32 word) = i"
  unfolding hi_mask HandleOf_def
  by (rule bit_word_eqI) (auto simp: bit_simps dest: bit_imp_le_length)

lemma HandleOf_lo: "(ucast (HandleOf i h AND 0x00000000FFFFFFFF) :: 32 word) = h"
  unfolding lo_mask HandleOf_def
  by (rule bit_word_eqI) (auto simp: bit_simps)







lemma HandleOf_inj: "HandleOf i h = HandleOf i' h' \<Longrightarrow> i = i' \<and> h = h'"
  by (metis HandleOf_hi HandleOf_lo)
















































lemma FindStructByName_Pages [simp]:
  "FindStructByName (U\<lparr>Pages := ps\<rparr>) nm = FindStructByName U nm"
  by (simp add: FindStructByName_def)























end
